theory Spec2Isabelle
  imports Complex_Main "HOL-Library.Word" "HOL-Library.Log_Nat" "HOL-Library.Monad_Syntax"
begin

unbundle bit_operations_syntax

section \<open>JavaScript numbers\<close>

text \<open>
  A JavaScript number is an IEEE 754 double. The finite ones are modelled by the
  rationals they denote; every arithmetic operation computes the exact rational result
  and rounds it to the nearest value with a 53-bit significand, ties to even (\<open>fl\<close>).
  The exponent range is not modelled: no operation of \<open>timestamp.js\<close> overflows it, and
  the one that can underflow (\<open>value / 2^32\<close> in \<open>fromNumber\<close>) is only observed through
  its truncation to an integer, which is 0 either way.

  Where the source computes with integers that stay far below \<open>2^53\<close> (the 16-bit limbs of
  \<open>add\<close> and \<open>multiply\<close>, loop counters, digits) double arithmetic is exact and the
  model uses \<open>int\<close>.
\<close>

datatype number = NaN | PosInf | NegInf | Fin rat

definition pow2 :: "int \<Rightarrow> rat" where
  "pow2 e = (if 0 \<le> e then 2 ^ nat e else 1 / 2 ^ nat (- e))"

text \<open>\<open>binade x\<close> is the exponent \<open>k\<close> with \<open>2^k \<le> \<bar>x\<bar> < 2^(k+1)\<close>, for \<open>x \<noteq> 0\<close>.\<close>

definition binade :: "rat \<Rightarrow> int" where
  "binade x =
    (let (p, q) = quotient_of \<bar>x\<bar>; k = bitlen p - bitlen q
     in if pow2 k \<le> \<bar>x\<bar> then k else k - 1)"

definition round_half_even :: "rat \<Rightarrow> int" where
  "round_half_even y =
    (let f = \<lfloor>y\<rfloor>; d = y - of_int f
     in if d < 1 / 2 then f else if 1 / 2 < d then f + 1 else if even f then f else f + 1)"

definition fl :: "rat \<Rightarrow> rat" where
  "fl x =
    (if x = 0 then 0
     else let e = binade x - 52
          in sgn x * of_int (round_half_even (\<bar>x\<bar> / pow2 e)) * pow2 e)"

definition fadd :: "rat \<Rightarrow> rat \<Rightarrow> rat" where "fadd a b = fl (a + b)"
definition fsub :: "rat \<Rightarrow> rat \<Rightarrow> rat" where "fsub a b = fl (a - b)"
definition fmul :: "rat \<Rightarrow> rat \<Rightarrow> rat" where "fmul a b = fl (a * b)"
definition fdiv :: "rat \<Rightarrow> rat \<Rightarrow> rat" where "fdiv a b = fl (a / b)"

text \<open>Truncation towards zero, and JavaScript's \<open>%\<close> (the remainder has the sign of the
  dividend and is exact).\<close>

definition trunc :: "rat \<Rightarrow> int" where
  "trunc x = (if 0 \<le> x then \<lfloor>x\<rfloor> else \<lceil>x\<rceil>)"

definition js_rem :: "rat \<Rightarrow> rat \<Rightarrow> rat" where
  "js_rem a b = a - b * of_int (trunc (a / b))"

subsection \<open>32-bit integer operators\<close>

type_synonym int32 = "32 word"

text \<open>\<open>x | 0\<close> on an integral number: reduction modulo \<open>2^32\<close> into the signed range.\<close>

definition ToInt32 :: "int \<Rightarrow> int32" where
  "ToInt32 n = word_of_int n"

text \<open>\<open>x | 0\<close> on any finite number truncates first.\<close>

definition ToInt32_num :: "rat \<Rightarrow> int32" where
  "ToInt32_num x = ToInt32 (trunc x)"

text \<open>Shift counts are taken modulo 32, as the language defines.\<close>

definition js_ushr :: "int \<Rightarrow> int \<Rightarrow> int" where
  "js_ushr x n = uint (drop_bit (nat (n mod 32)) (ToInt32 x))"

definition js_shr :: "int \<Rightarrow> int \<Rightarrow> int" where
  "js_shr x n = sint (signed_drop_bit (nat (n mod 32)) (ToInt32 x))"

definition js_shl :: "int \<Rightarrow> int \<Rightarrow> int" where
  "js_shl x n = sint (push_bit (nat (n mod 32)) (ToInt32 x))"

definition js_and :: "int \<Rightarrow> int \<Rightarrow> int" where
  "js_and x y = sint (ToInt32 x AND ToInt32 y)"

definition js_or :: "int \<Rightarrow> int \<Rightarrow> int" where
  "js_or x y = sint (ToInt32 x OR ToInt32 y)"

definition js_xor :: "int \<Rightarrow> int \<Rightarrow> int" where
  "js_xor x y = sint (ToInt32 x XOR ToInt32 y)"

definition js_not :: "int \<Rightarrow> int" where
  "js_not x = sint (NOT (ToInt32 x))"

section \<open>The Timestamp value\<close>

text \<open>The constructor forces both arguments into 32 signed bits (\<open>low | 0\<close>, \<open>high | 0\<close>),
  so the two fields are 32-bit words, read as signed numbers by \<open>sint\<close>.\<close>

record Timestamp =
  low :: int32
  high :: int32

definition Timestamp :: "int \<Rightarrow> int \<Rightarrow> Timestamp" where
  "Timestamp l h = \<lparr>low = ToInt32 l, high = ToInt32 h\<rparr>"

text \<open>\<open>fromInt\<close> memoises the objects for \<open>-128 \<le> value < 128\<close> in \<open>INT_CACHE_\<close>; a cached
  object is the one this expression built on the first call, so the value returned is
  the same with or without the cache.\<close>

definition fromInt :: "int \<Rightarrow> Timestamp" where
  "fromInt v = Timestamp (js_or v 0) (if v < 0 then - 1 else 0)"

definition fromBits :: "int \<Rightarrow> int \<Rightarrow> Timestamp" where
  "fromBits lowBits highBits = Timestamp lowBits highBits"

definition TWO_PWR_16_DBL :: rat where "TWO_PWR_16_DBL = of_int (js_shl 1 16)"
definition TWO_PWR_24_DBL :: rat where "TWO_PWR_24_DBL = of_int (js_shl 1 24)"
definition TWO_PWR_32_DBL :: rat where "TWO_PWR_32_DBL = fmul TWO_PWR_16_DBL TWO_PWR_16_DBL"
definition TWO_PWR_31_DBL :: rat where "TWO_PWR_31_DBL = fdiv TWO_PWR_32_DBL 2"
definition TWO_PWR_48_DBL :: rat where "TWO_PWR_48_DBL = fmul TWO_PWR_32_DBL TWO_PWR_16_DBL"
definition TWO_PWR_64_DBL :: rat where "TWO_PWR_64_DBL = fmul TWO_PWR_32_DBL TWO_PWR_32_DBL"
definition TWO_PWR_63_DBL :: rat where "TWO_PWR_63_DBL = fdiv TWO_PWR_64_DBL 2"

definition ZERO :: Timestamp where "ZERO = fromInt 0"
definition ONE :: Timestamp where "ONE = fromInt 1"
definition NEG_ONE :: Timestamp where "NEG_ONE = fromInt (- 1)"
definition MAX_VALUE :: Timestamp where
  "MAX_VALUE = fromBits (js_or 0xFFFFFFFF 0) (js_or 0x7FFFFFFF 0)"
definition MIN_VALUE :: Timestamp where
  "MIN_VALUE = fromBits 0 (js_or 0x80000000 0)"
definition TWO_PWR_24 :: Timestamp where "TWO_PWR_24 = fromInt (js_shl 1 24)"

subsection \<open>Accessors and predicates\<close>

definition toInt :: "Timestamp \<Rightarrow> int" where
  "toInt this = sint (low this)"

definition getLowBitsUnsigned :: "Timestamp \<Rightarrow> rat" where
  "getLowBitsUnsigned this =
    (if 0 \<le> sint (low this) then of_int (sint (low this))
     else fadd TWO_PWR_32_DBL (of_int (sint (low this))))"

definition toNumber :: "Timestamp \<Rightarrow> rat" where
  "toNumber this =
    fadd (fmul (of_int (sint (high this))) TWO_PWR_32_DBL) (getLowBitsUnsigned this)"

definition isZero :: "Timestamp \<Rightarrow> bool" where
  "isZero this \<longleftrightarrow> sint (high this) = 0 \<and> sint (low this) = 0"

definition isNegative :: "Timestamp \<Rightarrow> bool" where
  "isNegative this \<longleftrightarrow> sint (high this) < 0"

definition isOdd :: "Timestamp \<Rightarrow> bool" where
  "isOdd this \<longleftrightarrow> js_and (sint (low this)) 1 = 1"

definition equals :: "Timestamp \<Rightarrow> Timestamp \<Rightarrow> bool" where
  "equals this other \<longleftrightarrow>
     sint (high this) = sint (high other) \<and> sint (low this) = sint (low other)"

definition notEquals :: "Timestamp \<Rightarrow> Timestamp \<Rightarrow> bool" where
  "notEquals this other \<longleftrightarrow>
     sint (high this) \<noteq> sint (high other) \<or> sint (low this) \<noteq> sint (low other)"

subsection \<open>Addition, negation, comparison\<close>

definition not_ts :: "Timestamp \<Rightarrow> Timestamp" where
  "not_ts this = fromBits (js_not (sint (low this))) (js_not (sint (high this)))"

definition add :: "Timestamp \<Rightarrow> Timestamp \<Rightarrow> Timestamp" where
  "add this other =
    (let a48 = js_ushr (sint (high this)) 16;
         a32 = js_and (sint (high this)) 0xFFFF;
         a16 = js_ushr (sint (low this)) 16;
         a00 = js_and (sint (low this)) 0xFFFF;
         b48 = js_ushr (sint (high other)) 16;
         b32 = js_and (sint (high other)) 0xFFFF;
         b16 = js_ushr (sint (low other)) 16;
         b00 = js_and (sint (low other)) 0xFFFF;
         c48 = 0; c32 = 0; c16 = 0; c00 = 0;
         c00 = c00 + (a00 + b00);
         c16 = c16 + js_ushr c00 16;
         c00 = js_and c00 0xFFFF;
         c16 = c16 + (a16 + b16);
         c32 = c32 + js_ushr c16 16;
         c16 = js_and c16 0xFFFF;
         c32 = c32 + (a32 + b32);
         c48 = c48 + js_ushr c32 16;
         c32 = js_and c32 0xFFFF;
         c48 = c48 + (a48 + b48);
         c48 = js_and c48 0xFFFF
     in fromBits (js_or (js_shl c16 16) c00) (js_or (js_shl c48 16) c32))"

definition negate :: "Timestamp \<Rightarrow> Timestamp" where
  "negate this = (if equals this MIN_VALUE then MIN_VALUE else add (not_ts this) ONE)"

definition subtract :: "Timestamp \<Rightarrow> Timestamp \<Rightarrow> Timestamp" where
  "subtract this other = add this (negate other)"

definition compare :: "Timestamp \<Rightarrow> Timestamp \<Rightarrow> int" where
  "compare this other =
    (if equals this other then 0
     else let thisNeg = isNegative this; otherNeg = isNegative other
          in if thisNeg \<and> \<not> otherNeg then - 1
             else if \<not> thisNeg \<and> otherNeg then 1
             else if isNegative (subtract this other) then - 1
             else 1)"

definition lessThan_ts :: "Timestamp \<Rightarrow> Timestamp \<Rightarrow> bool" where
  "lessThan_ts this other \<longleftrightarrow> compare this other < 0"

definition lessThanOrEqual :: "Timestamp \<Rightarrow> Timestamp \<Rightarrow> bool" where
  "lessThanOrEqual this other \<longleftrightarrow> compare this other \<le> 0"

definition greaterThan_ts :: "Timestamp \<Rightarrow> Timestamp \<Rightarrow> bool" where
  "greaterThan_ts this other \<longleftrightarrow> compare this other > 0"

definition greaterThanOrEqual :: "Timestamp \<Rightarrow> Timestamp \<Rightarrow> bool" where
  "greaterThanOrEqual this other \<longleftrightarrow> compare this other \<ge> 0"

subsection \<open>Construction from a number\<close>

function fromNumber :: "number \<Rightarrow> Timestamp" where
  "fromNumber NaN = ZERO"
| "fromNumber PosInf = ZERO"
| "fromNumber NegInf = ZERO"
| "fromNumber (Fin v) =
    (if v \<le> - TWO_PWR_63_DBL then MIN_VALUE
     else if TWO_PWR_63_DBL \<le> fadd v 1 then MAX_VALUE
     else if v < 0 then negate (fromNumber (Fin (- v)))
     else Timestamp (sint (ToInt32_num (js_rem v TWO_PWR_32_DBL)))
                    (sint (ToInt32_num (fdiv v TWO_PWR_32_DBL))))"
  by pat_completeness auto
termination
  by (relation "measure (\<lambda>n. case n of Fin v \<Rightarrow> (if v < 0 then 1 else 0) | _ \<Rightarrow> 0)") auto

section \<open>The integer a Timestamp denotes\<close>

definition val :: "Timestamp \<Rightarrow> int" where
  "val x = sint (high x) * 2 ^ 32 + uint (low x)"

definition wrap64 :: "int \<Rightarrow> int" where
  "wrap64 n = (n + 2 ^ 63) mod 2 ^ 64 - 2 ^ 63"

definition of_val :: "int \<Rightarrow> Timestamp" where
  "of_val n = \<lparr>low = word_of_int n, high = word_of_int (n div 2 ^ 32)\<rparr>"

lemma sint32_bounds: "- 2147483648 \<le> sint (w :: int32)" "sint (w :: int32) < 2147483648"
  using sint_ge [of w] sint_lt [of w] by simp_all

lemma uint32_bounds: "0 \<le> uint (w :: int32)" "uint (w :: int32) < 4294967296"
  using uint_bounded [of w] by simp_all

lemma val_lower: "- 9223372036854775808 \<le> val x"
  using sint32_bounds [of "high x"] uint32_bounds [of "low x"]
  unfolding val_def by (simp; linarith)

lemma val_upper: "val x < 9223372036854775808"
  using sint32_bounds [of "high x"] uint32_bounds [of "low x"]
  unfolding val_def by (simp; linarith)

lemma val_div: "val x div 4294967296 = sint (high x)"
  using uint32_bounds [of "low x"] unfolding val_def by simp

lemma val_mod: "val x mod 4294967296 = uint (low x)"
  using uint32_bounds [of "low x"] unfolding val_def by simp

lemma word32_of_uint_mod: "(word_of_int (n mod 4294967296) :: int32) = word_of_int n"
proof -
  have "(word_of_int (n mod 2 ^ LENGTH(32)) :: int32) = word_of_int n"
    by (simp add: word_of_int_eq_iff take_bit_eq_mod)
  then show ?thesis by simp
qed

lemma of_val_val: "of_val (val x) = x"
proof -
  have "(word_of_int (val x) :: int32) = word_of_int (val x mod 4294967296)"
    by (simp only: word32_of_uint_mod)
  then have "(word_of_int (val x) :: int32) = low x"
    by (simp add: val_mod)
  moreover have "(word_of_int (val x div 2 ^ 32) :: int32) = high x"
    by (simp add: val_div)
  ultimately show ?thesis by (simp add: of_val_def)
qed

lemma uint32_word_of_int: "uint (word_of_int n :: int32) = n mod 4294967296"
  by (simp add: uint_word_of_int)

lemma sint32_word_of_int: "sint (word_of_int n :: int32) = (n + 2147483648) mod 4294967296 - 2147483648"
  by (simp add: sint_uint uint_word_of_int signed_take_bit_eq_take_bit_shift take_bit_eq_mod mod_simps)

lemma mod_hi_lo:
  fixes n k b c :: int
  assumes "0 < b" "0 \<le> c"
  shows "(n + k * b) mod (b * c) = b * ((n div b + k) mod c) + n mod b"
  using assms by (simp add: zmod_zmult2_eq add.commute)

lemma val_of_val: "val (of_val n) = wrap64 n"
proof -
  have "val (of_val n) = ((n div 4294967296 + 2147483648) mod 4294967296 - 2147483648) * 4294967296 + n mod 4294967296"
    by (simp add: val_def of_val_def uint32_word_of_int sint32_word_of_int)
  moreover have "(n + 2147483648 * 4294967296) mod (4294967296 * 4294967296)
        = 4294967296 * ((n div 4294967296 + 2147483648) mod 4294967296) + n mod 4294967296"
    by (rule mod_hi_lo) simp_all
  ultimately show ?thesis unfolding wrap64_def by simp
qed

lemma ToInt32_sint [simp]: "ToInt32 (sint w) = w"
  by (simp add: ToInt32_def)

lemma int_and_65535: "(c :: int) AND 65535 = c mod 65536"
proof -
  have "c AND mask 16 = take_bit 16 c" by (simp add: take_bit_eq_mask)
  then show ?thesis by (simp add: take_bit_eq_mod mask_eq_exp_minus_1)
qed

lemma sint32_small: "0 \<le> n \<Longrightarrow> n < 2147483648 \<Longrightarrow> sint (word_of_int n :: int32) = n"
  by (simp add: sint32_word_of_int)

lemma uint32_small: "0 \<le> n \<Longrightarrow> n < 4294967296 \<Longrightarrow> uint (word_of_int n :: int32) = n"
  by (simp add: uint32_word_of_int)

lemma js_and16_int: "js_and c 65535 = c mod 65536"
proof -
  have "(ToInt32 c AND ToInt32 65535) = word_of_int (c AND 65535)"
    unfolding ToInt32_def by (simp add: of_int_and_eq)
  also have "\<dots> = word_of_int (c mod 65536)"
    by (simp only: int_and_65535)
  finally have "js_and c 65535 = sint (word_of_int (c mod 65536) :: int32)"
    by (simp add: js_and_def)
  moreover have "0 \<le> c mod 65536" "c mod 65536 < 2147483648"
    using pos_mod_bound [of 65536 c] by simp_all
  ultimately show ?thesis by (simp add: sint32_small)
qed

lemma js_ushr16_int: "js_ushr c 16 = c mod 4294967296 div 65536"
proof -
  have "uint (drop_bit 16 (word_of_int c :: int32)) = drop_bit 16 (uint (word_of_int c :: int32))"
    by (simp add: unsigned_drop_bit_eq take_bit_eq_mod uint32_word_of_int)
  then show ?thesis
    by (simp add: js_ushr_def ToInt32_def uint32_word_of_int drop_bit_eq_div)
qed

lemma word_of_sint_mod: "sint (w :: int32) mod 4294967296 = uint w"
proof -
  have "uint (word_of_int (sint w) :: int32) = sint w mod 4294967296"
    by (rule uint32_word_of_int)
  then show ?thesis by simp
qed

lemma js_ushr16_sint: "js_ushr (sint (w :: int32)) 16 = uint w div 65536"
  by (simp only: js_ushr16_int word_of_sint_mod)

lemma js_and16_sint: "js_and (sint (w :: int32)) 65535 = uint w mod 65536"
proof -
  have "sint w mod 65536 = sint w mod 4294967296 mod (65536 :: int)"
    by (simp add: mod_mod_cancel)
  then show ?thesis by (simp only: js_and16_int word_of_sint_mod)
qed

lemma pack_limbs:
  assumes "0 \<le> a" "a < 65536" "0 \<le> b" "b < 65536"
  shows "ToInt32 (js_or (js_shl a 16) b) = word_of_int (a * 65536 + b)"
proof -
  have "ToInt32 (js_or (js_shl a 16) b) = push_bit 16 (word_of_int a) OR word_of_int b"
    by (simp add: js_or_def js_shl_def) (simp add: ToInt32_def)
  also have "\<dots> = word_of_int (push_bit 16 a OR b)"
    by (simp add: of_int_or_eq of_int_push_bit)
  also have "push_bit 16 a OR b = push_bit 16 a + b"
  proof (rule disjunctive_add [symmetric])
    fix n
    have "b = take_bit 16 b"
      using assms by (simp add: take_bit_int_eq_self)
    then have "bit b n \<Longrightarrow> n < 16"
      by (metis bit_take_bit_iff)
    then show "\<not> bit (push_bit 16 a) n \<or> \<not> bit b n"
      by (auto simp add: bit_push_bit_iff)
  qed
  finally show ?thesis by (simp add: push_bit_eq_mult)
qed

definition uval :: "Timestamp \<Rightarrow> int" where
  "uval x = uint (low x) + 4294967296 * uint (high x)"

lemma val_eq: "val x = sint (high x) * 4294967296 + uint (low x)"
  by (simp add: val_def)

lemma mod_add_mult_trivial:
  fixes l h b :: int
  shows "0 \<le> l \<Longrightarrow> l < b \<Longrightarrow> (l + h * b) mod b = l"
  by simp

lemma div_add_mult_trivial:
  fixes l h b :: int
  shows "0 \<le> l \<Longrightarrow> l < b \<Longrightarrow> (l + h * b) div b = h"
  by simp

lemma uval_bounds: "0 \<le> uval x" "uval x < 18446744073709551616"
  using uint32_bounds [of "low x"] uint32_bounds [of "high x"]
  unfolding uval_def by linarith+

lemma mod_cases_int:
  fixes s u m :: int
  assumes "s mod m = u" "- m < s" "s < m"
  shows "s = u \<or> s = u - m"
proof (cases "0 \<le> s")
  case True
  then have "s mod m = s" using assms(3) by (rule mod_pos_pos_trivial)
  with assms(1) show ?thesis by simp
next
  case False
  then have "0 \<le> s + m" "s + m < m" using assms(2) by linarith+
  then have "(s + m) mod m = s + m" by (rule mod_pos_pos_trivial)
  moreover have "(s + m) mod m = s mod m" by (rule mod_add_self2)
  ultimately show ?thesis using assms(1) by linarith
qed

lemma mod_of_cases_int:
  fixes v u m :: int
  assumes "0 \<le> u" "u < m" "v = u \<or> v = u - m"
  shows "v mod m = u"
proof -
  have "u mod m = u" using assms(1,2) by (rule mod_pos_pos_trivial)
  moreover have "(u - m) mod m = u mod m" by (rule minus_mod_self2)
  ultimately show ?thesis using assms(3) by auto
qed

lemma sint32_uint: "sint (w :: int32) = uint w \<or> sint w = uint w - 4294967296"
proof (rule mod_cases_int)
  show "sint w mod 4294967296 = uint w" by (rule word_of_sint_mod)
  show "- 4294967296 < sint w" using sint32_bounds(1) [of w] by linarith
  show "sint w < 4294967296" using sint32_bounds(2) [of w] by linarith
qed

lemma val_uval_cases: "val x = uval x \<or> val x = uval x - 18446744073709551616"
  using sint32_uint [of "high x"] unfolding val_eq uval_def by linarith

lemma val_mod64: "val x mod 18446744073709551616 = uval x"
  using uval_bounds [of x] val_uval_cases [of x] by (rule mod_of_cases_int)

lemma of_val_cong: "n mod 18446744073709551616 = m mod 18446744073709551616 \<Longrightarrow> of_val n = of_val m"
proof -
  assume h: "n mod 18446744073709551616 = m mod 18446744073709551616"
  have lo: "k mod 4294967296 = k mod 18446744073709551616 mod 4294967296" for k :: int
    by (simp add: mod_mod_cancel)
  have hi: "k div 4294967296 mod 4294967296 = k mod 18446744073709551616 div 4294967296" for k :: int
  proof -
    have "k mod (4294967296 * 4294967296) = 4294967296 * (k div 4294967296 mod 4294967296) + k mod 4294967296"
      by (rule zmod_zmult2_eq) simp
    then have "k mod 18446744073709551616 div 4294967296
       = (4294967296 * (k div 4294967296 mod 4294967296) + k mod 4294967296) div 4294967296"
      by simp
    also have "\<dots> = k div 4294967296 mod 4294967296"
      by simp
    finally show ?thesis by simp
  qed
  have nm: "n mod 4294967296 = m mod 4294967296"
  proof -
    have "n mod 4294967296 = n mod 18446744073709551616 mod 4294967296" by (rule lo)
    also have "\<dots> = m mod 18446744073709551616 mod 4294967296" by (simp only: h)
    also have "\<dots> = m mod 4294967296" by (rule lo [symmetric])
    finally show ?thesis .
  qed
  have "(word_of_int n :: int32) = word_of_int (n mod 4294967296)"
    by (simp only: word32_of_uint_mod)
  also have "\<dots> = word_of_int (m mod 4294967296)"
    by (simp only: nm)
  also have "\<dots> = word_of_int m"
    by (simp only: word32_of_uint_mod)
  finally have l: "(word_of_int n :: int32) = word_of_int m" .
  have nm': "n div 4294967296 mod 4294967296 = m div 4294967296 mod 4294967296"
    unfolding hi h ..
  have "(word_of_int (n div 4294967296) :: int32) = word_of_int (n div 4294967296 mod 4294967296)"
    by (simp only: word32_of_uint_mod)
  also have "\<dots> = word_of_int (m div 4294967296 mod 4294967296)"
    by (simp only: nm')
  also have "\<dots> = word_of_int (m div 4294967296)"
    by (simp only: word32_of_uint_mod)
  finally have h': "(word_of_int (n div 4294967296) :: int32) = word_of_int (m div 4294967296)" .
  show ?thesis by (simp add: of_val_def l h')
qed

lemma of_val_uval: "of_val (uval x) = x"
proof -
  have "of_val (uval x) = of_val (val x)"
    by (rule of_val_cong) (simp add: val_mod64 uval_bounds)
  then show ?thesis by (simp add: of_val_val)
qed

lemma fromBits_limbs:
  assumes "0 \<le> c00" "c00 < 65536" "0 \<le> c16" "c16 < 65536"
          "0 \<le> c32" "c32 < 65536" "0 \<le> c48" "c48 < 65536"
  shows "fromBits (js_or (js_shl c16 16) c00) (js_or (js_shl c48 16) c32)
       = of_val (c00 + 65536 * c16 + 4294967296 * c32 + 281474976710656 * c48)"
proof -
  let ?L = "c16 * 65536 + c00" and ?H = "c48 * 65536 + c32"
  let ?U = "c00 + 65536 * c16 + 4294967296 * c32 + 281474976710656 * c48"
  have U: "?U = ?L + ?H * 4294967296" by algebra
  have L: "0 \<le> ?L" "?L < 4294967296" using assms by linarith+
  have "?U mod 4294967296 = ?L"
    unfolding U using L by (rule mod_add_mult_trivial)
  then have "(word_of_int ?U :: int32) = word_of_int ?L"
    using word32_of_uint_mod [of ?U] by simp
  moreover have "?U div 4294967296 = ?H"
    unfolding U using L by (rule div_add_mult_trivial)
  moreover have "of_val ?U = \<lparr>low = word_of_int ?U, high = word_of_int (?U div 4294967296)\<rparr>"
    by (simp add: of_val_def)
  ultimately have "of_val ?U = \<lparr>low = word_of_int ?L, high = word_of_int ?H\<rparr>"
    by simp
  then show ?thesis
    using assms by (simp add: fromBits_def Timestamp_def pack_limbs)
qed

lemma limb_split:
  "uval x = uint (low x) mod 65536 + 65536 * (uint (low x) div 65536)
     + 4294967296 * (uint (high x) mod 65536) + 281474976710656 * (uint (high x) div 65536)"
proof -
  have "uint (low x) = 65536 * (uint (low x) div 65536) + uint (low x) mod 65536"
    by (rule mult_div_mod_eq [symmetric])
  moreover have "uint (high x) = 65536 * (uint (high x) div 65536) + uint (high x) mod 65536"
    by (rule mult_div_mod_eq [symmetric])
  ultimately show ?thesis unfolding uval_def by linarith
qed

lemma carry_step:
  fixes s :: int
  assumes "0 \<le> s" "s < 4294967296"
  shows "js_ushr s 16 = s div 65536"
  using assms by (simp add: js_ushr16_int)

lemma limb_bounds:
  "0 \<le> uint (w :: int32) mod 65536" "uint (w :: int32) mod 65536 < 65536"
  "0 \<le> uint (w :: int32) div 65536" "uint (w :: int32) div 65536 < 65536"
  using uint32_bounds [of w] by (simp_all add: pos_imp_zdiv_nonneg_iff)

lemma add_limbs:
  fixes a00 a16 a32 a48 b00 b16 b32 b48 :: int
  defines "s0 \<equiv> a00 + b00"
  defines "s1 \<equiv> s0 div 65536 + (a16 + b16)"
  defines "s2 \<equiv> s1 div 65536 + (a32 + b32)"
  defines "s3 \<equiv> s2 div 65536 + (a48 + b48)"
  shows "(s0 mod 65536 + 65536 * (s1 mod 65536) + 4294967296 * (s2 mod 65536)
           + 281474976710656 * (s3 mod 65536)) mod 18446744073709551616
       = ((a00 + 65536 * a16 + 4294967296 * a32 + 281474976710656 * a48)
          + (b00 + 65536 * b16 + 4294967296 * b32 + 281474976710656 * b48)) mod 18446744073709551616"
proof -
  have d0: "s0 = 65536 * (s0 div 65536) + s0 mod 65536" by (rule mult_div_mod_eq [symmetric])
  have d1: "s1 = 65536 * (s1 div 65536) + s1 mod 65536" by (rule mult_div_mod_eq [symmetric])
  have d2: "s2 = 65536 * (s2 div 65536) + s2 mod 65536" by (rule mult_div_mod_eq [symmetric])
  have d3: "s3 = 65536 * (s3 div 65536) + s3 mod 65536" by (rule mult_div_mod_eq [symmetric])
  have "(a00 + 65536 * a16 + 4294967296 * a32 + 281474976710656 * a48)
          + (b00 + 65536 * b16 + 4294967296 * b32 + 281474976710656 * b48)
      = (s0 mod 65536 + 65536 * (s1 mod 65536) + 4294967296 * (s2 mod 65536)
           + 281474976710656 * (s3 mod 65536)) + (s3 div 65536) * 18446744073709551616"
    using d0 d1 d2 d3 unfolding s0_def s1_def s2_def s3_def by linarith
  then show ?thesis by (simp only: mod_mult_self1)
qed

lemma add_of_val: "add x y = of_val (val x + val y)"
proof -
  define a00 where "a00 = uint (low x) mod 65536"
  define a16 where "a16 = uint (low x) div 65536"
  define a32 where "a32 = uint (high x) mod 65536"
  define a48 where "a48 = uint (high x) div 65536"
  define b00 where "b00 = uint (low y) mod 65536"
  define b16 where "b16 = uint (low y) div 65536"
  define b32 where "b32 = uint (high y) mod 65536"
  define b48 where "b48 = uint (high y) div 65536"
  define s0 where "s0 = a00 + b00"
  define s1 where "s1 = s0 div 65536 + (a16 + b16)"
  define s2 where "s2 = s1 div 65536 + (a32 + b32)"
  define s3 where "s3 = s2 div 65536 + (a48 + b48)"
  note defs = a00_def a16_def a32_def a48_def b00_def b16_def b32_def b48_def
  have ab: "0 \<le> a00" "a00 < 65536" "0 \<le> a16" "a16 < 65536" "0 \<le> a32" "a32 < 65536"
      "0 \<le> a48" "a48 < 65536" "0 \<le> b00" "b00 < 65536" "0 \<le> b16" "b16 < 65536"
      "0 \<le> b32" "b32 < 65536" "0 \<le> b48" "b48 < 65536"
    unfolding defs by (rule limb_bounds)+
  have r0: "0 \<le> s0" "s0 < 131072" unfolding s0_def using ab by linarith+
  then have q0: "0 \<le> s0 div 65536" "s0 div 65536 < 2" by simp_all
  have r1: "0 \<le> s1" "s1 < 131072" unfolding s1_def using ab q0 by linarith+
  then have q1: "0 \<le> s1 div 65536" "s1 div 65536 < 2" by simp_all
  have r2: "0 \<le> s2" "s2 < 131072" unfolding s2_def using ab q1 by linarith+
  have u0: "js_ushr s0 16 = s0 div 65536" using r0 by (intro carry_step) linarith+
  have u1: "js_ushr s1 16 = s1 div 65536" using r1 by (intro carry_step) linarith+
  have u2: "js_ushr s2 16 = s2 div 65536" using r2 by (intro carry_step) linarith+
  have "add x y = fromBits (js_or (js_shl (js_and s1 65535) 16) (js_and s0 65535))
                           (js_or (js_shl (js_and s3 65535) 16) (js_and s2 65535))"
    unfolding add_def Let_def js_ushr16_sint js_and16_sint add_0
    unfolding defs [symmetric] s0_def [symmetric] u0 s1_def [symmetric] u1 s2_def [symmetric] u2
      s3_def [symmetric] ..
  also have "\<dots> = of_val (s0 mod 65536 + 65536 * (s1 mod 65536) + 4294967296 * (s2 mod 65536)
           + 281474976710656 * (s3 mod 65536))"
    unfolding js_and16_int by (rule fromBits_limbs) simp_all
  also have "\<dots> = of_val (uval x + uval y)"
    unfolding s0_def s1_def s2_def s3_def
    by (rule of_val_cong) (simp only: add_limbs limb_split [of x] limb_split [of y] defs)
  also have "\<dots> = of_val (val x + val y)"
    by (rule of_val_cong) (simp only: val_mod64 [symmetric] mod_add_eq)
  finally show ?thesis .
qed

lemma wrap64_mod: "wrap64 n mod 18446744073709551616 = n mod 18446744073709551616"
proof -
  have "wrap64 n = (n + 9223372036854775808) mod 18446744073709551616 - 9223372036854775808"
    by (simp add: wrap64_def)
  then have "wrap64 n mod 18446744073709551616
     = ((n + 9223372036854775808) mod 18446744073709551616 - 9223372036854775808) mod 18446744073709551616"
    by simp
  also have "\<dots> = (n + 9223372036854775808 - 9223372036854775808) mod 18446744073709551616"
    by (rule mod_diff_left_eq)
  finally show ?thesis by simp
qed

lemma wrap64_id:
  "- 9223372036854775808 \<le> n \<Longrightarrow> n < 9223372036854775808 \<Longrightarrow> wrap64 n = n"
  by (simp add: wrap64_def)

lemma of_val_wrap64: "of_val (wrap64 n) = of_val n"
  by (rule of_val_cong) (rule wrap64_mod)

lemma val_inj: "val x = val y \<Longrightarrow> x = y"
  by (metis of_val_val)

lemma val_eq_iff: "val x = n \<longleftrightarrow> x = of_val n \<and> - 9223372036854775808 \<le> n \<and> n < 9223372036854775808"
  using val_lower [of x] val_upper [of x] of_val_val [of x] val_of_val [of n] wrap64_id [of n]
  by auto

lemma sint32_inj: "sint (a :: int32) = sint (b :: int32) \<Longrightarrow> a = b"
  by (metis ToInt32_sint)

lemma sint32_id:
  "- 2147483648 \<le> n \<Longrightarrow> n < 2147483648 \<Longrightarrow> sint (word_of_int n :: int32) = n"
proof -
  assume "- 2147483648 \<le> n" "n < 2147483648"
  then have "0 \<le> n + 2147483648" "n + 2147483648 < 4294967296" by linarith+
  then have "(n + 2147483648) mod 4294967296 = n + 2147483648"
    by (rule mod_pos_pos_trivial)
  then show ?thesis by (simp add: sint32_word_of_int)
qed

lemma equals_iff: "equals x y \<longleftrightarrow> x = y"
  by (cases x, cases y) (auto simp add: equals_def dest: sint32_inj)

lemma isNegative_iff: "isNegative x \<longleftrightarrow> val x < 0"
proof -
  have "val x div 4294967296 < 0 \<longleftrightarrow> val x < 0"
    by (simp add: pos_imp_zdiv_neg_iff)
  then show ?thesis by (simp add: isNegative_def val_div)
qed

lemma isZero_iff: "isZero x \<longleftrightarrow> val x = 0"
proof
  assume "isZero x"
  then have "sint (high x) = 0" "sint (low x) = 0"
    by (simp_all add: isZero_def)
  moreover from this have "uint (low x) = 0"
    using word_of_sint_mod [of "low x"] by simp
  ultimately have "sint (high x) = 0" "uint (low x) = 0" by simp_all
  then show "val x = 0" by (simp add: val_eq)
next
  assume "val x = 0"
  then have "val x div 4294967296 = 0" "val x mod 4294967296 = 0" by simp_all
  then have "sint (high x) = 0" "uint (low x) = 0" by (simp_all add: val_div val_mod)
  moreover from this have "low x = 0" by (simp add: unsigned_eq_0_iff)
  ultimately show "isZero x" by (simp add: isZero_def)
qed

lemma val_not_ts: "val (not_ts x) = - val x - 1"
proof -
  have "not_ts x = \<lparr>low = NOT (low x), high = NOT (high x)\<rparr>"
    by (simp add: not_ts_def fromBits_def Timestamp_def js_not_def)
  moreover have "sint (NOT (high x)) = - sint (high x) - 1"
  proof -
    have "NOT (high x) = word_of_int (- sint (high x) - 1)"
      by (simp add: not_eq_complement)
    moreover have "sint (word_of_int (- sint (high x) - 1) :: int32) = - sint (high x) - 1"
      using sint32_bounds [of "high x"] by (intro sint32_id) linarith+
    ultimately show ?thesis by simp
  qed
  moreover have "uint (NOT (low x)) = 4294967295 - uint (low x)"
  proof -
    have "NOT (low x) = word_of_int (4294967295 - uint (low x))"
      by (simp add: not_eq_complement)
    moreover have "uint (word_of_int (4294967295 - uint (low x)) :: int32) = 4294967295 - uint (low x)"
      using uint32_bounds [of "low x"] by (intro uint32_small) linarith+
    ultimately show ?thesis by simp
  qed
  ultimately show ?thesis by (simp add: val_eq)
qed

lemma val_consts:
  "val ZERO = 0" "val ONE = 1" "val NEG_ONE = - 1"
  "val MIN_VALUE = - 9223372036854775808" "val MAX_VALUE = 9223372036854775807"
  "val TWO_PWR_24 = 16777216"
  by (code_simp)+

lemma negate_of_val: "negate x = of_val (- val x)"
proof (cases "x = MIN_VALUE")
  case True
  then have "negate x = of_val (val MIN_VALUE)"
    by (simp add: negate_def equals_iff of_val_val)
  also have "\<dots> = of_val (- val MIN_VALUE)"
    by (rule of_val_cong) (simp add: val_consts)
  finally show ?thesis using True by simp
next
  case False
  then show ?thesis
    by (simp add: negate_def equals_iff add_of_val val_not_ts val_consts)
qed

lemma subtract_of_val: "subtract x y = of_val (val x - val y)"
proof -
  have "subtract x y = of_val (val x + wrap64 (- val y))"
    by (simp add: subtract_def negate_of_val add_of_val val_of_val)
  also have "\<dots> = of_val (val x - val y)"
    by (rule of_val_cong) (metis wrap64_mod mod_add_right_eq uminus_add_conv_diff add.commute)
  finally show ?thesis .
qed

lemma val_negate: "x \<noteq> MIN_VALUE \<Longrightarrow> val (negate x) = - val x"
proof -
  assume "x \<noteq> MIN_VALUE"
  then have "val x \<noteq> - 9223372036854775808"
    using val_inj [of x MIN_VALUE] by (auto simp add: val_consts)
  then have "wrap64 (- val x) = - val x"
    using val_lower [of x] val_upper [of x] by (intro wrap64_id) linarith+
  then show ?thesis by (simp add: negate_of_val val_of_val)
qed

lemma val_subtract_same_sign:
  assumes "val x < 0 \<longleftrightarrow> val y < 0"
  shows "val (subtract x y) = val x - val y"
proof -
  have "wrap64 (val x - val y) = val x - val y"
    using assms val_lower [of x] val_upper [of x] val_lower [of y] val_upper [of y]
    by (intro wrap64_id) linarith+
  then show ?thesis by (simp add: subtract_of_val val_of_val)
qed

lemma compare_eq:
  "compare x y = (if val x = val y then 0 else if val x < val y then - 1 else 1)"
proof (cases "val x = val y")
  case True
  then show ?thesis using val_inj [of x y] by (simp add: compare_def equals_iff)
next
  case ne: False
  then have "x \<noteq> y" by auto
  show ?thesis
  proof (cases "(val x < 0) = (val y < 0)")
    case True
    then have "val (subtract x y) = val x - val y"
      by (rule val_subtract_same_sign)
    with True ne \<open>x \<noteq> y\<close> show ?thesis
      by (auto simp add: compare_def equals_iff isNegative_iff Let_def)
  next
    case False
    with ne \<open>x \<noteq> y\<close> show ?thesis
      by (auto simp add: compare_def equals_iff isNegative_iff Let_def)
  qed
qed

lemma order_iffs:
  "lessThan_ts x y \<longleftrightarrow> val x < val y"
  "lessThanOrEqual x y \<longleftrightarrow> val x \<le> val y"
  "greaterThan_ts x y \<longleftrightarrow> val y < val x"
  "greaterThanOrEqual x y \<longleftrightarrow> val y \<le> val x"
  by (auto simp add: lessThan_ts_def lessThanOrEqual_def greaterThan_ts_def
      greaterThanOrEqual_def compare_eq)

section \<open>Rounding to a double\<close>

lemma pow2_powi: "pow2 e = 2 powi e"
  by (simp add: pow2_def power_int_def inverse_eq_divide power_one_over)

lemma pow2_pos [simp]: "0 < pow2 e"
  by (simp add: pow2_powi)

lemma pow2_add: "pow2 (a + b) = pow2 a * pow2 b"
  by (simp add: pow2_powi power_int_add)

lemma pow2_diff: "pow2 (a - b) = pow2 a / pow2 b"
  by (simp add: pow2_powi power_int_diff)

lemma pow2_nat: "pow2 (int n) = 2 ^ n"
  by (simp add: pow2_def)

lemma pow2_0 [simp]: "pow2 0 = 1"
  by (simp add: pow2_def)

lemma pow2_mono: "a \<le> b \<Longrightarrow> pow2 a \<le> pow2 b"
  by (simp add: pow2_powi power_int_increasing)

lemma pow2_strict_mono: "a < b \<Longrightarrow> pow2 a < pow2 b"
  by (simp add: pow2_powi power_int_strict_increasing)

lemma pow2_le_iff: "pow2 a \<le> pow2 b \<longleftrightarrow> a \<le> b"
  using pow2_mono [of a b] pow2_strict_mono [of b a] by (auto simp add: not_le [symmetric])

lemma pow2_less_iff: "pow2 a < pow2 b \<longleftrightarrow> a < b"
  using pow2_mono [of b a] pow2_strict_mono [of a b] by (auto simp add: not_less [symmetric])

lemma pow2_Suc: "pow2 (e + 1) = 2 * pow2 e"
  by (simp add: pow2_powi power_int_add)

lemma binade_bounds:
  assumes "x \<noteq> 0"
  shows "pow2 (binade x) \<le> \<bar>x\<bar>" "\<bar>x\<bar> < pow2 (binade x + 1)"
proof -
  obtain p q where pq: "quotient_of \<bar>x\<bar> = (p, q)" by (cases "quotient_of \<bar>x\<bar>")
  then have q: "0 < q" by (rule quotient_of_denom_pos)
  have x: "\<bar>x\<bar> = of_int p / of_int q" using pq by (rule quotient_of_div)
  have "0 < \<bar>x\<bar>" using assms by simp
  then have p: "0 < p" using q unfolding x by (simp add: zero_less_divide_iff)
  define k where "k = bitlen p - bitlen q"
  have bp: "2 ^ nat (bitlen p - 1) \<le> p" "p < 2 ^ nat (bitlen p)"
    using bitlen_bounds [OF p] by simp_all
  have bq: "2 ^ nat (bitlen q - 1) \<le> q" "q < 2 ^ nat (bitlen q)"
    using bitlen_bounds [OF q] by simp_all
  have bp1: "1 \<le> bitlen p" using p by (simp add: bitlen_alt_def)
  have bq1: "1 \<le> bitlen q" using q by (simp add: bitlen_alt_def)
  have rp: "pow2 (bitlen p - 1) \<le> of_int p" "(of_int p :: rat) < pow2 (bitlen p)"
  proof -
    have "(of_int (2 ^ nat (bitlen p - 1)) :: rat) \<le> of_int p"
      using bp(1) by (simp only: of_int_le_iff)
    then show "pow2 (bitlen p - 1) \<le> of_int p"
      using bp1 by (simp add: pow2_def)
    have "(of_int p :: rat) < of_int (2 ^ nat (bitlen p))"
      using bp(2) by (simp only: of_int_less_iff)
    then show "(of_int p :: rat) < pow2 (bitlen p)"
      using bp1 by (simp add: pow2_def)
  qed
  have rq: "pow2 (bitlen q - 1) \<le> of_int q" "(of_int q :: rat) < pow2 (bitlen q)"
  proof -
    have "(of_int (2 ^ nat (bitlen q - 1)) :: rat) \<le> of_int q"
      using bq(1) by (simp only: of_int_le_iff)
    then show "pow2 (bitlen q - 1) \<le> of_int q"
      using bq1 by (simp add: pow2_def)
    have "(of_int q :: rat) < of_int (2 ^ nat (bitlen q))"
      using bq(2) by (simp only: of_int_less_iff)
    then show "(of_int q :: rat) < pow2 (bitlen q)"
      using bq1 by (simp add: pow2_def)
  qed
  have qpos: "(0 :: rat) < of_int q" using q by simp
  have lo: "pow2 (k - 1) < \<bar>x\<bar>"
  proof -
    have "pow2 (k - 1) * of_int q < pow2 (k - 1) * pow2 (bitlen q)"
      using rq(2) by simp
    also have "\<dots> = pow2 (bitlen p - 1)"
      by (simp add: k_def pow2_add [symmetric])
    also have "\<dots> \<le> of_int p" by (rule rp(1))
    finally show ?thesis unfolding x using qpos by (simp add: pos_less_divide_eq)
  qed
  have hi: "\<bar>x\<bar> < pow2 (k + 1)"
  proof -
    have "of_int p < pow2 (bitlen p)" by (rule rp(2))
    also have "\<dots> = pow2 (k + 1) * pow2 (bitlen q - 1)"
      by (simp add: k_def pow2_add [symmetric])
    also have "\<dots> \<le> pow2 (k + 1) * of_int q"
      using rq(1) by simp
    finally show ?thesis unfolding x using qpos by (simp add: pos_divide_less_eq)
  qed
  have b: "binade x = (if pow2 k \<le> \<bar>x\<bar> then k else k - 1)"
    by (simp add: binade_def pq k_def Let_def)
  show "pow2 (binade x) \<le> \<bar>x\<bar>"
    using lo unfolding b by auto
  show "\<bar>x\<bar> < pow2 (binade x + 1)"
    using hi unfolding b by auto
qed

lemma binade_unique:
  assumes "pow2 e \<le> \<bar>x\<bar>" "\<bar>x\<bar> < pow2 (e + 1)"
  shows "binade x = e"
proof -
  have "0 < \<bar>x\<bar>" using pow2_pos [of e] assms(1) by (rule less_le_trans)
  then have "x \<noteq> 0" by simp
  note b = binade_bounds [OF this]
  have "pow2 e < pow2 (binade x + 1)" using assms(1) b(2) by (rule le_less_trans)
  then have "e < binade x + 1" by (simp only: pow2_less_iff)
  moreover have "pow2 (binade x) < pow2 (e + 1)" using b(1) assms(2) by (rule le_less_trans)
  then have "binade x < e + 1" by (simp only: pow2_less_iff)
  ultimately show ?thesis by linarith
qed

lemma round_half_even_int [simp]: "round_half_even (of_int m) = m"
  by (simp add: round_half_even_def)

lemma round_half_even_error: "\<bar>of_int (round_half_even y) - y\<bar> \<le> 1 / 2"
proof -
  define f where "f = \<lfloor>y\<rfloor>"
  define d where "d = y - of_int f"
  have d: "0 \<le> d" "d < 1" unfolding d_def f_def by linarith+
  have r: "round_half_even y
      = (if d < 1 / 2 then f else if 1 / 2 < d then f + 1 else if even f then f else f + 1)"
    by (simp add: round_half_even_def Let_def f_def d_def)
  have y: "y = of_int f + d" by (simp add: d_def)
  show ?thesis by (subst r) (use d y in \<open>auto simp add: abs_if\<close>)
qed

lemma round_half_even_ge: "of_int n \<le> y \<Longrightarrow> n \<le> round_half_even y"
proof -
  assume "of_int n \<le> y"
  then have "n \<le> \<lfloor>y\<rfloor>" by (simp add: le_floor_iff)
  then show ?thesis unfolding round_half_even_def Let_def by auto
qed

lemma round_half_even_le: "y \<le> of_int n \<Longrightarrow> round_half_even y \<le> n"
proof (cases "y = of_int n")
  case True
  then show ?thesis by simp
next
  case False
  assume "y \<le> of_int n"
  with False have "y < of_int n" by simp
  then have "\<lfloor>y\<rfloor> < n" by (simp add: floor_less_iff)
  then show ?thesis unfolding round_half_even_def Let_def by auto
qed

lemma pow2_nonzero [simp]: "pow2 e \<noteq> 0"
  using pow2_pos [of e] by (simp del: pow2_pos)

lemma pow2_nonneg [simp]: "0 \<le> pow2 e"
  using pow2_pos [of e] by (simp del: pow2_pos)

lemma pow2_abs [simp]: "\<bar>pow2 e\<bar> = pow2 e"
  by (simp add: abs_of_pos)

lemma pow2_52: "pow2 (e + 52) = 4503599627370496 * pow2 e"
proof -
  have "pow2 (e + 52) = pow2 e * pow2 52" by (rule pow2_add)
  also have "pow2 52 = 4503599627370496" by (simp add: pow2_def)
  finally show ?thesis by simp
qed

lemma pow2_53: "pow2 (e + 53) = 9007199254740992 * pow2 e"
proof -
  have "pow2 (e + 53) = pow2 e * pow2 53" by (rule pow2_add)
  also have "pow2 53 = 9007199254740992" by (simp add: pow2_def)
  finally show ?thesis by simp
qed

lemma binade_minus [simp]: "binade (- x) = binade x"
  by (simp add: binade_def)

lemma fl_0 [simp]: "fl 0 = 0"
  by (simp add: fl_def)

lemma fl_minus: "fl (- x) = - fl x"
  by (simp add: fl_def Let_def)

lemma fl_pos_eq:
  "0 < x \<Longrightarrow> fl x = of_int (round_half_even (x / pow2 (binade x - 52))) * pow2 (binade x - 52)"
  by (simp add: fl_def Let_def)

lemma scaled_binade:
  assumes "0 < x"
  shows "4503599627370496 \<le> x / pow2 (binade x - 52)" "x / pow2 (binade x - 52) \<le> 9007199254740992"
proof -
  have x: "x \<noteq> 0" "\<bar>x\<bar> = x" using assms by simp_all
  have "binade x = 52 + (binade x - 52)" by linarith
  then have "pow2 (binade x) = pow2 52 * pow2 (binade x - 52)"
    by (metis pow2_add)
  also have "pow2 52 = 4503599627370496" by (simp add: pow2_def)
  finally have a: "pow2 (binade x) = 4503599627370496 * pow2 (binade x - 52)" .
  have "binade x + 1 = 53 + (binade x - 52)" by linarith
  then have "pow2 (binade x + 1) = pow2 53 * pow2 (binade x - 52)"
    by (metis pow2_add)
  also have "pow2 53 = 9007199254740992" by (simp add: pow2_def)
  finally have b: "pow2 (binade x + 1) = 9007199254740992 * pow2 (binade x - 52)" .
  show "4503599627370496 \<le> x / pow2 (binade x - 52)"
    using binade_bounds(1) [OF x(1)] unfolding x(2) a by (simp add: pos_le_divide_eq)
  show "x / pow2 (binade x - 52) \<le> 9007199254740992"
    using binade_bounds(2) [OF x(1)] unfolding x(2) b by (simp add: pos_divide_le_eq)
qed

lemma fl_grid:
  assumes "0 < x"
  obtains m where "fl x = of_int m * pow2 (binade x - 52)"
    "4503599627370496 \<le> m" "m \<le> 9007199254740992"
    "\<bar>of_int m - x / pow2 (binade x - 52)\<bar> \<le> 1 / 2"
proof
  let ?y = "x / pow2 (binade x - 52)"
  show "fl x = of_int (round_half_even ?y) * pow2 (binade x - 52)"
    using assms by (rule fl_pos_eq)
  have "of_int 4503599627370496 \<le> ?y" using scaled_binade(1) [OF assms] by simp
  then show "4503599627370496 \<le> round_half_even ?y" by (rule round_half_even_ge)
  have "?y \<le> of_int 9007199254740992" using scaled_binade(2) [OF assms] by simp
  then show "round_half_even ?y \<le> 9007199254740992" by (rule round_half_even_le)
  show "\<bar>of_int (round_half_even ?y) - ?y\<bar> \<le> 1 / 2" by (rule round_half_even_error)
qed

lemma fl_pos: "0 < x \<Longrightarrow> 0 < fl x"
proof -
  assume x: "0 < x"
  obtain m where "fl x = of_int m * pow2 (binade x - 52)" "4503599627370496 \<le> m"
    using fl_grid [OF x] by blast
  then show ?thesis by (simp add: zero_less_mult_iff)
qed

lemma fl_error_abs_pos:
  assumes "0 < x"
  shows "\<bar>fl x - x\<bar> \<le> pow2 (binade x - 52) / 2"
proof -
  let ?p = "pow2 (binade x - 52)"
  obtain m where m: "fl x = of_int m * ?p" "\<bar>of_int m - x / ?p\<bar> \<le> 1 / 2"
    using fl_grid [OF assms] by blast
  have "fl x - x = (of_int m - x / ?p) * ?p"
    using m(1) by (simp add: field_simps)
  then have "\<bar>fl x - x\<bar> = \<bar>of_int m - x / ?p\<bar> * ?p"
    by (simp add: abs_mult)
  also have "\<dots> \<le> (1 / 2) * ?p"
    using m(2) by (intro mult_right_mono) simp_all
  finally show ?thesis by simp
qed

lemma fl_rel_error_pos:
  assumes "0 < x"
  shows "\<bar>fl x - x\<bar> \<le> x / 9007199254740992"
proof -
  have "pow2 (binade x - 52) \<le> x / 4503599627370496"
    using scaled_binade(1) [OF assms] by (simp add: field_simps)
  then have "pow2 (binade x - 52) / 2 \<le> x / 9007199254740992" by simp
  with fl_error_abs_pos [OF assms] show ?thesis by linarith
qed

lemma fl_scaled_int:
  assumes "4503599627370496 \<le> m" "m < 9007199254740992"
  shows "fl (of_int m * pow2 e) = of_int m * pow2 e"
proof -
  let ?x = "of_int m * pow2 e"
  have "(of_int 4503599627370496 :: rat) \<le> of_int m" "(of_int m :: rat) < of_int 9007199254740992"
    using assms by (simp_all only: of_int_le_iff of_int_less_iff)
  then have m: "(4503599627370496 :: rat) \<le> of_int m" "(of_int m :: rat) < 9007199254740992"
    by simp_all
  have pos: "0 < ?x" using m by (simp add: zero_less_mult_iff)
  have p52: "pow2 (e + 52) = 4503599627370496 * pow2 e"
    by (rule pow2_52)
  have p53: "pow2 (e + 52 + 1) = 9007199254740992 * pow2 e"
    using pow2_53 [of e] by (simp add: add.assoc)
  have "binade ?x = e + 52"
  proof (rule binade_unique)
    have ax: "\<bar>?x\<bar> = ?x" using pos by simp
    show "pow2 (e + 52) \<le> \<bar>?x\<bar>"
      unfolding ax p52 using m(1) by (intro mult_right_mono) simp_all
    show "\<bar>?x\<bar> < pow2 (e + 52 + 1)"
      unfolding ax p53 using m(2) by (intro mult_strict_right_mono) simp_all
  qed
  then show ?thesis using pos by (simp add: fl_pos_eq)
qed

lemma normalise_pos:
  fixes m :: int
  assumes "0 < m" "m < 9007199254740992"
  obtains j :: nat where "4503599627370496 \<le> m * 2 ^ j" "m * 2 ^ j < 9007199254740992"
proof -
  have b: "2 ^ nat (bitlen m - 1) \<le> m" "m < 2 ^ nat (bitlen m)"
    using bitlen_bounds [OF assms(1)] by simp_all
  have b1: "1 \<le> bitlen m" using assms(1) by (simp add: bitlen_alt_def)
  have "(2 :: int) ^ nat (bitlen m - 1) < 2 ^ 53" using b(1) assms(2) by simp
  then have "nat (bitlen m - 1) < 53" by (simp only: power_strict_increasing_iff) 
  then have b2: "bitlen m \<le> 53" by linarith
  define j where "j = nat (53 - bitlen m)"
  have e1: "nat (bitlen m - 1) + j = 52" using b1 b2 by (simp add: j_def)
  have e2: "nat (bitlen m) + j = 53" using b1 b2 by (simp add: j_def)
  have "(2 :: int) ^ 52 = 2 ^ nat (bitlen m - 1) * 2 ^ j"
    by (simp only: e1 power_add [symmetric])
  also have "\<dots> \<le> m * 2 ^ j" using b(1) by (intro mult_right_mono) simp_all
  finally have l: "4503599627370496 \<le> m * 2 ^ j" by simp
  have "m * 2 ^ j < 2 ^ nat (bitlen m) * 2 ^ j" using b(2) by (intro mult_strict_right_mono) simp_all
  also have "\<dots> = 2 ^ 53" by (simp only: e2 power_add [symmetric])
  finally have u: "m * 2 ^ j < 9007199254740992" by simp
  from l u show ?thesis by (rule that)
qed

lemma fl_representable_pos:
  assumes "0 < m" "m \<le> 9007199254740992"
  shows "fl (of_int m * pow2 e) = of_int m * pow2 e"
proof (cases "m = 9007199254740992")
  case True
  have A: "of_int m * pow2 e = of_int 4503599627370496 * pow2 (e + 1)"
    unfolding True by (simp add: pow2_Suc)
  have B: "fl (of_int 4503599627370496 * pow2 (e + 1)) = of_int 4503599627370496 * pow2 (e + 1)"
    by (rule fl_scaled_int) simp_all
  show ?thesis unfolding A by (rule B)
next
  case False
  with assms have "m < 9007199254740992" by simp
  with assms(1) obtain j :: nat where
    j: "4503599627370496 \<le> m * 2 ^ j" "m * 2 ^ j < 9007199254740992"
    by (rule normalise_pos)
  have "e = int j + (e - int j)" by linarith
  then have "pow2 e = pow2 (int j) * pow2 (e - int j)" by (metis pow2_add)
  then have A: "of_int m * pow2 e = of_int (m * 2 ^ j) * pow2 (e - int j)"
    by (simp add: pow2_nat)
  have B: "fl (of_int (m * 2 ^ j) * pow2 (e - int j)) = of_int (m * 2 ^ j) * pow2 (e - int j)"
    using j by (rule fl_scaled_int)
  show ?thesis unfolding A by (rule B)
qed

lemma fl_representable:
  assumes "\<bar>m\<bar> \<le> 9007199254740992"
  shows "fl (of_int m * pow2 e) = of_int m * pow2 e"
proof -
  consider "m = 0" | "0 < m" | "m < 0" by linarith
  then show ?thesis
  proof cases
    case 1
    then show ?thesis by simp
  next
    case 2
    with assms show ?thesis by (intro fl_representable_pos) simp_all
  next
    case 3
    with assms have "fl (of_int (- m) * pow2 e) = of_int (- m) * pow2 e"
      by (intro fl_representable_pos) simp_all
    then show ?thesis using fl_minus [of "of_int m * pow2 e"] by simp
  qed
qed

lemma fl_int_exact: "\<bar>n\<bar> \<le> 9007199254740992 \<Longrightarrow> fl (of_int n) = of_int n"
  using fl_representable [of n 0] by simp

subsection \<open>Multiplication\<close>

lemma negate_nonneg: "isNegative x \<Longrightarrow> \<not> equals x MIN_VALUE \<Longrightarrow> \<not> isNegative (negate x)"
  by (simp add: isNegative_iff equals_iff val_negate)

text \<open>The last part of \<open>multiply\<close>, for two non-negative operands that are not both
  below \<open>2^24\<close>: the 4x4 products of 16-bit chunks, skipping those that overflow.\<close>

definition multiply_chunks :: "Timestamp \<Rightarrow> Timestamp \<Rightarrow> Timestamp" where
  "multiply_chunks this other =
       (let a48 = js_ushr (sint (high this)) 16;
            a32 = js_and (sint (high this)) 0xFFFF;
            a16 = js_ushr (sint (low this)) 16;
            a00 = js_and (sint (low this)) 0xFFFF;
            b48 = js_ushr (sint (high other)) 16;
            b32 = js_and (sint (high other)) 0xFFFF;
            b16 = js_ushr (sint (low other)) 16;
            b00 = js_and (sint (low other)) 0xFFFF;
            c48 = 0; c32 = 0; c16 = 0; c00 = 0;
            c00 = c00 + a00 * b00;
            c16 = c16 + js_ushr c00 16;
            c00 = js_and c00 0xFFFF;
            c16 = c16 + a16 * b00;
            c32 = c32 + js_ushr c16 16;
            c16 = js_and c16 0xFFFF;
            c16 = c16 + a00 * b16;
            c32 = c32 + js_ushr c16 16;
            c16 = js_and c16 0xFFFF;
            c32 = c32 + a32 * b00;
            c48 = c48 + js_ushr c32 16;
            c32 = js_and c32 0xFFFF;
            c32 = c32 + a16 * b16;
            c48 = c48 + js_ushr c32 16;
            c32 = js_and c32 0xFFFF;
            c32 = c32 + a00 * b32;
            c48 = c48 + js_ushr c32 16;
            c32 = js_and c32 0xFFFF;
            c48 = c48 + (a48 * b00 + a32 * b16 + a16 * b32 + a00 * b48);
            c48 = js_and c48 0xFFFF
        in fromBits (js_or (js_shl c16 16) c00) (js_or (js_shl c48 16) c32))"

function multiply :: "Timestamp \<Rightarrow> Timestamp \<Rightarrow> Timestamp" where
  "multiply this other =
    (if isZero this then ZERO
     else if isZero other then ZERO
     else if equals this MIN_VALUE then (if isOdd other then MIN_VALUE else ZERO)
     else if equals other MIN_VALUE then (if isOdd this then MIN_VALUE else ZERO)
     else if isNegative this then
       (if isNegative other then multiply (negate this) (negate other)
        else negate (multiply (negate this) other))
     else if isNegative other then negate (multiply this (negate other))
     else if lessThan_ts this TWO_PWR_24 \<and> lessThan_ts other TWO_PWR_24 then
       fromNumber (Fin (fmul (toNumber this) (toNumber other)))
     else multiply_chunks this other)"
  by pat_completeness auto
termination
proof (relation "measure (\<lambda>(a, b). (if isNegative a then 1 else 0) + (if isNegative b then 1 else 0))")
  show "wf (measure (\<lambda>(a, b). (if isNegative a then 1 else 0) + (if isNegative b then 1 else (0 :: nat))))"
    by simp
next
  fix this other
  assume "\<not> equals this MIN_VALUE" "\<not> equals other MIN_VALUE" "isNegative this" "isNegative other"
  then show "((negate this, negate other), (this, other))
     \<in> measure (\<lambda>(a, b). (if isNegative a then 1 else 0) + (if isNegative b then 1 else 0))"
    by (simp add: negate_nonneg)
next
  fix this other
  assume "\<not> equals this MIN_VALUE" "isNegative this" "\<not> isNegative other"
  then show "((negate this, other), (this, other))
     \<in> measure (\<lambda>(a, b). (if isNegative a then 1 else 0) + (if isNegative b then 1 else 0))"
    by (simp add: negate_nonneg)
next
  fix this other
  assume "\<not> equals other MIN_VALUE" "\<not> isNegative this" "isNegative other"
  then show "((this, negate other), (this, other))
     \<in> measure (\<lambda>(a, b). (if isNegative a then 1 else 0) + (if isNegative b then 1 else 0))"
    by (simp add: negate_nonneg)
qed

declare multiply.simps [simp del]

lemma dbl_consts:
  "TWO_PWR_16_DBL = 65536" "TWO_PWR_24_DBL = 16777216" "TWO_PWR_32_DBL = 4294967296"
  "TWO_PWR_31_DBL = 2147483648" "TWO_PWR_48_DBL = 281474976710656"
  "TWO_PWR_64_DBL = 18446744073709551616" "TWO_PWR_63_DBL = 9223372036854775808"
  by code_simp+

lemma pow2_32: "pow2 32 = 4294967296"
  by (simp add: pow2_def)

lemma getLowBitsUnsigned_eq: "getLowBitsUnsigned x = of_int (uint (low x))"
proof (cases "0 \<le> sint (low x)")
  case True
  then have "sint (low x) = uint (low x)"
    using sint32_uint [of "low x"] uint32_bounds [of "low x"] sint32_bounds [of "low x"] by linarith
  with True show ?thesis by (simp add: getLowBitsUnsigned_def)
next
  case False
  then have s: "sint (low x) = uint (low x) - 4294967296"
    using sint32_uint [of "low x"] uint32_bounds [of "low x"] by linarith
  have "fl (of_int (uint (low x))) = of_int (uint (low x))"
    using uint32_bounds [of "low x"] by (intro fl_int_exact) linarith
  then show ?thesis using False by (simp add: getLowBitsUnsigned_def fadd_def dbl_consts s)
qed

lemma toNumber_eq: "toNumber x = fl (of_int (val x))"
proof -
  have "fl (of_int (sint (high x)) * pow2 32) = of_int (sint (high x)) * pow2 32"
    using sint32_bounds [of "high x"] by (intro fl_representable) linarith
  then have "fmul (of_int (sint (high x))) TWO_PWR_32_DBL = of_int (sint (high x)) * 4294967296"
    by (simp add: fmul_def dbl_consts pow2_32)
  then show ?thesis
    by (simp add: toNumber_def getLowBitsUnsigned_eq fadd_def val_eq)
qed

lemma toNumber_small:
  "\<bar>val x\<bar> \<le> 9007199254740992 \<Longrightarrow> toNumber x = of_int (val x)"
  by (simp add: toNumber_eq fl_int_exact)

lemma binade_scale: 
  assumes "x \<noteq> 0"
  shows "binade (x * pow2 k) = binade x + k"
proof (rule binade_unique)
  have a: "\<bar>x * pow2 k\<bar> = \<bar>x\<bar> * pow2 k" by (simp add: abs_mult)
  show "pow2 (binade x + k) \<le> \<bar>x * pow2 k\<bar>"
    unfolding a pow2_add using binade_bounds(1) [OF assms] by (intro mult_right_mono) simp_all
  have "binade x + k + 1 = (binade x + 1) + k" by simp
  then have b: "pow2 (binade x + k + 1) = pow2 (binade x + 1) * pow2 k" by (metis pow2_add)
  show "\<bar>x * pow2 k\<bar> < pow2 (binade x + k + 1)"
    unfolding a b using binade_bounds(2) [OF assms] by (intro mult_strict_right_mono) simp_all
qed

lemma fl_scale: "fl (x * pow2 k) = fl x * pow2 k"
proof (cases "x = 0")
  case True
  then show ?thesis by simp
next
  case False
  have "binade x + k - 52 = (binade x - 52) + k" by simp
  then have "pow2 (binade x + k - 52) = pow2 (binade x - 52) * pow2 k" by (metis pow2_add)
  then show ?thesis using False
    by (simp add: fl_def Let_def binade_scale abs_mult sgn_mult)
qed

lemma fl_div_2p32: "fl x = x \<Longrightarrow> fl (x / 4294967296) = x / 4294967296"
proof -
  assume a: "fl x = x"
  have e: "x / 4294967296 = x * pow2 (- 32)" by (simp add: pow2_def)
  show ?thesis unfolding e fl_scale a ..
qed

lemma fl_upper: "0 < x \<Longrightarrow> fl x \<le> pow2 (binade x + 1)"
proof -
  assume x: "0 < x"
  obtain m where m: "fl x = of_int m * pow2 (binade x - 52)" "m \<le> 9007199254740992"
    using fl_grid [OF x] by blast
  have "(of_int m :: rat) \<le> of_int 9007199254740992" using m(2) by (simp only: of_int_le_iff)
  then have "of_int m * pow2 (binade x - 52) \<le> 9007199254740992 * pow2 (binade x - 52)"
    by (intro mult_right_mono) simp_all
  also have "\<dots> = pow2 (binade x - 52 + 53)" by (simp only: pow2_53)
  also have "binade x - 52 + 53 = binade x + 1" by simp
  finally show ?thesis using m(1) by simp
qed

lemma fl_lower: "0 < x \<Longrightarrow> pow2 (binade x) \<le> fl x"
proof -
  assume x: "0 < x"
  obtain m where m: "fl x = of_int m * pow2 (binade x - 52)" "4503599627370496 \<le> m"
    using fl_grid [OF x] by blast
  have "binade x = binade x - 52 + 52" by simp
  then have "pow2 (binade x) = 4503599627370496 * pow2 (binade x - 52)" by (metis pow2_52)
  also have "\<dots> \<le> of_int m * pow2 (binade x - 52)"
  proof (intro mult_right_mono)
    have "(of_int 4503599627370496 :: rat) \<le> of_int m" using m(2) by (simp only: of_int_le_iff)
    then show "(4503599627370496 :: rat) \<le> of_int m" by simp
  qed simp
  finally show ?thesis using m(1) by simp
qed

lemma binade_le: "0 < x \<Longrightarrow> x < pow2 k \<Longrightarrow> binade x < k"
proof -
  assume "0 < x" "x < pow2 k"
  then have "x \<noteq> 0" "\<bar>x\<bar> = x" by simp_all
  with binade_bounds(1) [of x] have "pow2 (binade x) \<le> x" by simp
  from this \<open>x < pow2 k\<close> have "pow2 (binade x) < pow2 k" by (rule le_less_trans)
  then show ?thesis by (simp only: pow2_less_iff)
qed

lemma binade_ge: "pow2 k \<le> x \<Longrightarrow> k \<le> binade x"
proof -
  assume a: "pow2 k \<le> x"
  have "0 < x" using pow2_pos [of k] a by (rule less_le_trans)
  then have "x \<noteq> 0" "\<bar>x\<bar> = x" by simp_all
  with binade_bounds(2) [of x] have "x < pow2 (binade x + 1)" by simp
  with a have "pow2 k < pow2 (binade x + 1)" by (rule le_less_trans)
  then have "k < binade x + 1" by (simp only: pow2_less_iff)
  then show ?thesis by simp
qed

lemma pow2_63: "pow2 63 = 9223372036854775808"
  by (simp add: pow2_def)

lemma fl_ge_2p63: "9223372036854775808 \<le> x \<Longrightarrow> 9223372036854775808 \<le> fl x"
proof -
  assume a: "9223372036854775808 \<le> x"
  then have x: "0 < x" by simp
  have "63 \<le> binade x" using a by (intro binade_ge) (simp add: pow2_63)
  then have "pow2 63 \<le> pow2 (binade x)" by (rule pow2_mono)
  also have "\<dots> \<le> fl x" using x by (rule fl_lower)
  finally show ?thesis by (simp add: pow2_63)
qed

lemma fl_lt_2p63:
  assumes "x < 9223372036854775296"
  shows "fl x < 9223372036854775808"
proof (cases "0 < x")
  case False
  then have "fl x \<le> 0"
    using fl_pos [of "- x"] fl_minus [of x] by (cases "x = 0") auto
  then show ?thesis by simp
next
  case x: True
  have "x < pow2 63" using assms by (simp add: pow2_63)
  with x have b: "binade x < 63" by (rule binade_le)
  show ?thesis
  proof (cases "binade x = 62")
    case True
    have "\<bar>fl x - x\<bar> \<le> pow2 (binade x - 52) / 2" using x by (rule fl_error_abs_pos)
    also have "\<dots> = 512" unfolding True by (simp add: pow2_def)
    finally show ?thesis using assms by linarith
  next
    case False
    with b have "binade x + 1 \<le> 62" by simp
    then have "pow2 (binade x + 1) \<le> pow2 62" by (rule pow2_mono)
    with fl_upper [OF x] have "fl x \<le> pow2 62" by linarith
    then show ?thesis by (simp add: pow2_def)
  qed
qed

lemma trunc_of_int [simp]: "trunc (of_int n) = n"
  by (simp add: trunc_def)

lemma trunc_div_2p32: "0 \<le> n \<Longrightarrow> trunc (of_int n / 4294967296) = n div 4294967296"
proof -
  assume "0 \<le> n"
  then have "(0 :: rat) \<le> of_int n / 4294967296" by simp
  moreover have "\<lfloor>(of_int n :: rat) / of_int 4294967296\<rfloor> = n div 4294967296"
    by (rule floor_divide_of_int_eq)
  ultimately show ?thesis by (simp add: trunc_def)
qed

lemma js_rem_2p32: "0 \<le> n \<Longrightarrow> js_rem (of_int n) 4294967296 = of_int (n mod 4294967296)"
proof -
  assume n: "0 \<le> n"
  have "n mod 4294967296 = n - 4294967296 * (n div 4294967296)"
    by (simp add: minus_mult_div_eq_mod)
  then show ?thesis using n by (simp add: js_rem_def trunc_div_2p32)
qed

lemma Timestamp_of_val: "Timestamp (sint (word_of_int n :: int32)) (sint (word_of_int (n div 4294967296) :: int32)) = of_val n"
  by (simp add: Timestamp_def of_val_def)

lemma fromNumber_nonneg_int:
  assumes "0 \<le> n" "fl (of_int n) = of_int n" "fl (of_int n + 1) < 9223372036854775808"
  shows "fromNumber (Fin (of_int n)) = of_val n"
proof -
  have g1: "\<not> (of_int n :: rat) \<le> - 9223372036854775808" using assms(1) by simp
  have g3: "\<not> (of_int n :: rat) < 0" using assms(1) by simp
  have lo: "ToInt32_num (js_rem (of_int n) 4294967296) = word_of_int n"
    using assms(1) by (simp add: js_rem_2p32 ToInt32_num_def ToInt32_def word32_of_uint_mod)
  have hi: "ToInt32_num (fdiv (of_int n) 4294967296) = word_of_int (n div 4294967296)"
    using assms(1,2) by (simp add: fdiv_def fl_div_2p32 ToInt32_num_def ToInt32_def trunc_div_2p32)
  show ?thesis
    using g1 g3 assms(3)
    by (simp add: dbl_consts fadd_def lo hi Timestamp_of_val)
qed

lemma representable_below_2p63:
  assumes "fl (of_int n) = of_int n" "n < 9223372036854775808"
  shows "n \<le> 9223372036854774784"
proof (cases "n < 4611686018427387904")
  case True
  then show ?thesis by simp
next
  case False
  let ?x = "of_int n :: rat"
  have x: "0 < ?x" using False by simp
  have "pow2 62 = 4611686018427387904" by (simp add: pow2_def)
  moreover have "(of_int 4611686018427387904 :: rat) \<le> of_int n"
    using False by (simp only: of_int_le_iff)
  ultimately have l: "pow2 62 \<le> \<bar>?x\<bar>" by simp
  have "(of_int n :: rat) < of_int 9223372036854775808"
    using assms(2) by (simp only: of_int_less_iff)
  then have u: "\<bar>?x\<bar> < pow2 (62 + 1)" using x by (simp add: pow2_def)
  have b: "binade ?x = 62" using l u by (rule binade_unique)
  obtain m where m: "fl ?x = of_int m * pow2 (binade ?x - 52)" "m \<le> 9007199254740992"
    using fl_grid [OF x] by blast
  have "pow2 10 = 1024" by (simp add: pow2_def)
  with m(1) have "?x = of_int (m * 1024)" by (simp add: b assms(1))
  then have n: "n = m * 1024" by (simp only: of_int_eq_iff)
  with assms(2) have "m < 9007199254740992" by linarith
  then have "m \<le> 9007199254740991" by simp
  with n show ?thesis by linarith
qed

lemma fromNumber_representable:
  assumes "0 \<le> n" "fl (of_int n) = of_int n" "n < 9223372036854775808"
  shows "fromNumber (Fin (of_int n)) = of_val n"
proof -
  have "n \<le> 9223372036854774784" using assms(2,3) by (rule representable_below_2p63)
  then have "(of_int n :: rat) \<le> of_int 9223372036854774784" by (simp only: of_int_le_iff)
  then have "(of_int n :: rat) + 1 < 9223372036854775296" by simp
  then have "fl (of_int n + 1) < 9223372036854775808" by (rule fl_lt_2p63)
  with assms(1,2) show ?thesis by (rule fromNumber_nonneg_int)
qed

lemma fromNumber_small:
  "0 \<le> n \<Longrightarrow> n \<le> 9007199254740992 \<Longrightarrow> fromNumber (Fin (of_int n)) = of_val n"
  by (rule fromNumber_representable) (simp_all add: fl_int_exact)

lemma fromNumber_clamp_max:
  "9223372036854775808 \<le> v + 1 \<Longrightarrow> fromNumber (Fin v) = MAX_VALUE"
proof -
  assume a: "9223372036854775808 \<le> v + 1"
  then have "9223372036854775808 \<le> fl (v + 1)" by (rule fl_ge_2p63)
  moreover have "\<not> v \<le> - 9223372036854775808" using a by simp
  ultimately show ?thesis by (simp add: dbl_consts fadd_def)
qed

lemma fromNumber_clamp_min:
  "v \<le> - 9223372036854775808 \<Longrightarrow> fromNumber (Fin v) = MIN_VALUE"
  by (simp add: dbl_consts)

lemma fromNumber_negative:
  assumes "v < 0" "- 9223372036854775808 < v"
  shows "fromNumber (Fin v) = negate (fromNumber (Fin (- v)))"
proof -
  have "v + 1 < 9223372036854775296" using assms(1) by simp
  then have "fl (v + 1) < 9223372036854775808" by (rule fl_lt_2p63)
  then show ?thesis using assms by (simp add: dbl_consts fadd_def)
qed

subsection \<open>Bit length\<close>

text \<open>The loop \<open>for (bit = 31; bit > 0; bit--) if ((val & (1 << bit)) != 0) break;\<close>
  started at \<open>bit\<close>: the value of \<open>bit\<close> when it ends.\<close>

fun scan_bits :: "int \<Rightarrow> nat \<Rightarrow> int" where
  "scan_bits v 0 = 0"
| "scan_bits v (Suc b) =
    (if js_and v (js_shl 1 (int (Suc b))) \<noteq> 0 then int (Suc b) else scan_bits v b)"

function getNumBitsAbs :: "Timestamp \<Rightarrow> int" where
  "getNumBitsAbs this =
    (if isNegative this then
       (if equals this MIN_VALUE then 64 else getNumBitsAbs (negate this))
     else
       (let v = (if sint (high this) \<noteq> 0 then sint (high this) else sint (low this));
            bit = scan_bits v 31
        in if sint (high this) \<noteq> 0 then bit + 33 else bit + 1))"
  by pat_completeness auto
termination
  by (relation "measure (\<lambda>x. if isNegative x then 1 else 0)") (simp_all add: negate_nonneg)

declare getNumBitsAbs.simps [simp del]

subsection \<open>Truncation in \<open>fromNumber\<close>\<close>

lemma double_ge_2p53_int:
  assumes "fl v = v" "9007199254740992 \<le> v"
  shows "\<exists>n. v = of_int n"
proof -
  have v: "0 < v" using assms(2) by simp
  have "pow2 53 = 9007199254740992" by (simp add: pow2_def)
  then have "53 \<le> binade v" using assms(2) by (intro binade_ge) simp
  then have e: "0 \<le> binade v - 52" by simp
  obtain m where m: "fl v = of_int m * pow2 (binade v - 52)"
    using fl_grid [OF v] by blast
  have "pow2 (binade v - 52) = of_int (2 ^ nat (binade v - 52))"
    using e by (simp add: pow2_def)
  then have "v = of_int (m * 2 ^ nat (binade v - 52))"
    using m assms(1) by simp
  then show ?thesis ..
qed

lemma floor_div_pos_int:
  fixes x :: rat and k :: int
  assumes "0 < k"
  shows "\<lfloor>x / of_int k\<rfloor> = \<lfloor>x\<rfloor> div k"
proof (rule floor_unique)
  have k: "(0 :: rat) < of_int k" using assms by simp
  have "\<lfloor>x\<rfloor> div k * k \<le> \<lfloor>x\<rfloor>"
  proof -
    have "\<lfloor>x\<rfloor> = \<lfloor>x\<rfloor> div k * k + \<lfloor>x\<rfloor> mod k" by simp
    moreover have "0 \<le> \<lfloor>x\<rfloor> mod k" using assms by simp
    ultimately show ?thesis by linarith
  qed
  then have "of_int (\<lfloor>x\<rfloor> div k * k) \<le> (of_int \<lfloor>x\<rfloor> :: rat)"
    by (simp only: of_int_le_iff)
  also have "\<dots> \<le> x" by simp
  finally show "of_int (\<lfloor>x\<rfloor> div k) \<le> x / of_int k"
    using k by (simp add: pos_le_divide_eq)
  have "\<lfloor>x\<rfloor> < (\<lfloor>x\<rfloor> div k + 1) * k"
  proof -
    have "\<lfloor>x\<rfloor> = \<lfloor>x\<rfloor> div k * k + \<lfloor>x\<rfloor> mod k" by simp
    moreover have "\<lfloor>x\<rfloor> mod k < k" using assms by simp
    moreover have "(\<lfloor>x\<rfloor> div k + 1) * k = \<lfloor>x\<rfloor> div k * k + k" by (simp add: algebra_simps)
    ultimately show ?thesis by linarith
  qed
  then have "\<lfloor>x\<rfloor> + 1 \<le> (\<lfloor>x\<rfloor> div k + 1) * k" by simp
  then have "(of_int (\<lfloor>x\<rfloor> + 1) :: rat) \<le> of_int ((\<lfloor>x\<rfloor> div k + 1) * k)"
    by (simp only: of_int_le_iff)
  moreover have "x < of_int \<lfloor>x\<rfloor> + 1" by linarith
  then have "x < of_int (\<lfloor>x\<rfloor> + 1)" by simp
  ultimately have "x < of_int ((\<lfloor>x\<rfloor> div k + 1) * k)" by linarith
  then show "x / of_int k < of_int (\<lfloor>x\<rfloor> div k) + 1"
    using k by (simp add: pos_divide_less_eq)
qed

lemma fromNumber_nonneg_double:
  assumes "0 \<le> v" "fl v = v" "v < 9007199254740992"
  shows "fromNumber (Fin v) = of_val \<lfloor>v\<rfloor>"
proof -
  let ?n = "\<lfloor>v\<rfloor>"
  have n: "0 \<le> ?n" using assms(1) by simp
  have g1: "\<not> v \<le> - 9223372036854775808" using assms(1) by simp
  have g3: "\<not> v < 0" using assms(1) by simp
  have "v + 1 < 9223372036854775296" using assms(3) by simp
  then have g2: "fl (v + 1) < 9223372036854775808" by (rule fl_lt_2p63)
  have q: "\<lfloor>v / 4294967296\<rfloor> = ?n div 4294967296"
    using floor_div_pos_int [of 4294967296 v] by simp
  have q0: "0 \<le> v / 4294967296" using assms(1) by simp
  have t: "trunc (v / 4294967296) = ?n div 4294967296"
    using q q0 by (simp add: trunc_def)
  have "js_rem v 4294967296 = v - of_int (4294967296 * (?n div 4294967296))"
    by (simp add: js_rem_def t)
  moreover have "0 \<le> v - of_int (4294967296 * (?n div 4294967296))"
  proof -
    have "?n = 4294967296 * (?n div 4294967296) + ?n mod 4294967296" by simp
    moreover have "0 \<le> ?n mod 4294967296" by simp
    ultimately have "4294967296 * (?n div 4294967296) \<le> ?n" by linarith
    then have "(of_int (4294967296 * (?n div 4294967296)) :: rat) \<le> of_int ?n"
      by (simp only: of_int_le_iff)
    also have "\<dots> \<le> v" by simp
    finally show ?thesis by simp
  qed
  ultimately have "trunc (js_rem v 4294967296) = \<lfloor>v - of_int (4294967296 * (?n div 4294967296))\<rfloor>"
    by (simp add: trunc_def)
  also have "\<dots> = ?n - 4294967296 * (?n div 4294967296)"
    by (simp only: floor_diff_of_int)
  also have "\<dots> = ?n mod 4294967296"
    by (simp add: minus_mult_div_eq_mod)
  finally have lo: "ToInt32_num (js_rem v 4294967296) = word_of_int ?n"
    by (simp add: ToInt32_num_def ToInt32_def word32_of_uint_mod)
  have hi: "ToInt32_num (fdiv v 4294967296) = word_of_int (?n div 4294967296)"
    using assms(2) by (simp add: fdiv_def fl_div_2p32 ToInt32_num_def ToInt32_def t)
  show ?thesis
    using g1 g2 g3 by (simp add: dbl_consts fadd_def lo hi Timestamp_of_val)
qed

lemma fromNumber_trunc_nonneg:
  assumes "0 \<le> v" "fl v = v"
  shows "fromNumber (Fin v) = fromNumber (Fin (of_int (trunc v)))"
proof (cases "v < 9007199254740992")
  case True
  have n: "0 \<le> \<lfloor>v\<rfloor>" using assms(1) by simp
  have "\<lfloor>v\<rfloor> \<le> 9007199254740992"
    using True by (simp add: floor_le_iff)
  with n have "fromNumber (Fin (of_int \<lfloor>v\<rfloor>)) = of_val \<lfloor>v\<rfloor>"
    by (rule fromNumber_small)
  moreover have "fromNumber (Fin v) = of_val \<lfloor>v\<rfloor>"
    using assms True by (rule fromNumber_nonneg_double)
  ultimately show ?thesis using assms(1) by (simp add: trunc_def)
next
  case False
  then have "9007199254740992 \<le> v" by simp
  with assms(2) obtain n where "v = of_int n" using double_ge_2p53_int by blast
  then show ?thesis by simp
qed

lemma fromNumber_trunc:
  assumes "fl v = v"
  shows "fromNumber (Fin v) = fromNumber (Fin (of_int (trunc v)))"
proof (cases "0 \<le> v")
  case True
  then show ?thesis using assms by (rule fromNumber_trunc_nonneg)
next
  case False
  then have neg: "v < 0" by simp
  show ?thesis
  proof (cases "v \<le> - 9223372036854775808")
    case True
    then have "\<lceil>v\<rceil> \<le> - 9223372036854775808" by (simp add: ceiling_le_iff)
    then have "(of_int \<lceil>v\<rceil> :: rat) \<le> of_int (- 9223372036854775808)"
      by (simp only: of_int_le_iff)
    then have "(of_int \<lceil>v\<rceil> :: rat) \<le> - 9223372036854775808" by simp
    then have "fromNumber (Fin (of_int \<lceil>v\<rceil>)) = MIN_VALUE" by (rule fromNumber_clamp_min)
    moreover have "fromNumber (Fin v) = MIN_VALUE" using True by (rule fromNumber_clamp_min)
    ultimately show ?thesis using neg by (simp add: trunc_def)
  next
    case False
    then have lo: "- 9223372036854775808 < v" by simp
    have pos: "0 \<le> - v" "fl (- v) = - v" using neg assms by (simp_all add: fl_minus)
    have t: "trunc v = - trunc (- v)" using neg by (simp add: trunc_def ceiling_def)
    have a: "fromNumber (Fin v) = negate (fromNumber (Fin (of_int (trunc (- v)))))"
      using fromNumber_negative [OF neg lo] fromNumber_trunc_nonneg [OF pos] by simp
    show ?thesis
    proof (cases "trunc (- v) = 0")
      case True
      have "negate (fromNumber (Fin 0)) = fromNumber (Fin 0)" by code_simp
      then show ?thesis using a t True by simp
    next
      case nz: False
      have "0 \<le> trunc (- v)" using pos(1) by (simp add: trunc_def)
      with nz have p: "0 < trunc (- v)" by simp
      have "(of_int (trunc (- v)) :: rat) \<le> - v" using pos(1) by (simp add: trunc_def)
      then have "(of_int (trunc (- v)) :: rat) < 9223372036854775808" using lo by linarith
      then have "- 9223372036854775808 < (of_int (trunc v) :: rat)" by (simp add: t)
      moreover have "(of_int (trunc v) :: rat) < 0" using p by (simp add: t)
      ultimately have "fromNumber (Fin (of_int (trunc v)))
          = negate (fromNumber (Fin (- of_int (trunc v))))"
        by (intro fromNumber_negative)
      then show ?thesis using a by (simp add: t)
    qed
  qed
qed

subsection \<open>Shifts\<close>

definition shiftLeft :: "Timestamp \<Rightarrow> int \<Rightarrow> Timestamp" where
  "shiftLeft this numBits =
    (let numBits = js_and numBits 63
     in if numBits = 0 then this
        else let low = sint (low this)
             in if numBits < 32 then
                  (let high = sint (high this)
                   in fromBits (js_shl low numBits)
                        (js_or (js_shl high numBits) (js_ushr low (32 - numBits))))
                else fromBits 0 (js_shl low (numBits - 32)))"

definition shiftRight :: "Timestamp \<Rightarrow> int \<Rightarrow> Timestamp" where
  "shiftRight this numBits =
    (let numBits = js_and numBits 63
     in if numBits = 0 then this
        else let high = sint (high this)
             in if numBits < 32 then
                  (let low = sint (low this)
                   in fromBits (js_or (js_ushr low numBits) (js_shl high (32 - numBits)))
                        (js_shr high numBits))
                else fromBits (js_shr high (numBits - 32)) (if 0 \<le> high then 0 else - 1))"

definition shiftRightUnsigned :: "Timestamp \<Rightarrow> int \<Rightarrow> Timestamp" where
  "shiftRightUnsigned this numBits =
    (let numBits = js_and numBits 63
     in if numBits = 0 then this
        else let high = sint (high this)
             in if numBits < 32 then
                  (let low = sint (low this)
                   in fromBits (js_or (js_ushr low numBits) (js_shl high (32 - numBits)))
                        (js_ushr high numBits))
                else if numBits = 32 then fromBits high 0
                else fromBits (js_ushr high (numBits - 32)) 0)"

section \<open>Division\<close>

text \<open>
  The errors the source throws (each a JavaScript \<open>Error\<close> with its own message). A
  function that can throw returns \<open>error + 'a\<close>. \<open>div\<close> contains a loop whose termination
  is not evident, so it is defined as a partial function: \<open>None\<close> means that the call does
  not return.
\<close>

datatype error = EmptyString | RadixOutOfRange | InteriorMinus | DivisionByZero

definition bind_result :: "('e + 'a) option \<Rightarrow> ('a \<Rightarrow> ('e + 'b) option) \<Rightarrow> ('e + 'b) option" where
  "bind_result m f = Option.bind m (\<lambda>r. case r of Inl e \<Rightarrow> Some (Inl e) | Inr a \<Rightarrow> f a)"

lemma bind_result_mono [partial_function_mono]:
  assumes "mono_option B" "\<And>y. mono_option (C y)"
  shows "mono_option (\<lambda>f. bind_result (B f) (\<lambda>y. C y f))"
  unfolding bind_result_def
proof (rule bind_mono [OF assms(1)])
  fix r
  show "mono_option (\<lambda>f. case r of Inl e \<Rightarrow> Some (Inl e) | Inr a \<Rightarrow> C a f)"
    using assms(2) by (cases r) (simp_all add: option.const_mono)
qed

text \<open>
  The inner loop of \<open>div\<close>: \<open>while (approxRem.isNegative() || approxRem.greaterThan(rem))\<close>,
  on the three variables it assigns.
\<close>

partial_function (option) approx_loop ::
  "Timestamp \<Rightarrow> Timestamp \<Rightarrow> rat \<Rightarrow> rat \<Rightarrow> Timestamp \<Rightarrow> Timestamp
    \<Rightarrow> (rat \<times> Timestamp \<times> Timestamp) option" where
  "approx_loop other rem delta approx approxRes approxRem =
    (if isNegative approxRem \<or> greaterThan_ts approxRem rem then
       (let approx = fsub approx delta;
            approxRes = fromNumber (Fin approx);
            approxRem = multiply approxRes other
        in approx_loop other rem delta approx approxRes approxRem)
     else Some (approx, approxRes, approxRem))"

text \<open>
  The outer loop \<open>while (rem.greaterThanOrEqual(other))\<close>. The parameter \<open>lg\<close> stands for
  \<open>Math.ceil(Math.log(approx) / Math.LN2)\<close>: the language leaves the precision of
  \<open>Math.log\<close> to the implementation, so the result at and near powers of two is not
  determined by the source. \<open>Math.pow(2, log2 - 48)\<close> is the exact power of two.
\<close>

partial_function (option) div_loop ::
  "(rat \<Rightarrow> int) \<Rightarrow> Timestamp \<Rightarrow> Timestamp \<Rightarrow> Timestamp \<Rightarrow> Timestamp option" where
  "div_loop lg other res rem =
    (if greaterThanOrEqual rem other then
       (let approx = max 1 (of_int \<lfloor>fdiv (toNumber rem) (toNumber other)\<rfloor>);
            log2 = lg approx;
            delta = (if log2 \<le> 48 then 1 else pow2 (log2 - 48));
            approxRes = fromNumber (Fin approx);
            approxRem = multiply approxRes other
        in Option.bind (approx_loop other rem delta approx approxRes approxRem)
             (\<lambda>(approx, approxRes, approxRem).
                let approxRes = (if isZero approxRes then ONE else approxRes)
                in div_loop lg other (add res approxRes) (subtract rem approxRem)))
     else Some res)"

partial_function (option) div_ts ::
  "(rat \<Rightarrow> int) \<Rightarrow> Timestamp \<Rightarrow> Timestamp \<Rightarrow> (error + Timestamp) option" where
  "div_ts lg this other =
    (if isZero other then Some (Inl DivisionByZero)
     else if isZero this then Some (Inr ZERO)
     else if equals this MIN_VALUE then
       (if equals other ONE \<or> equals other NEG_ONE then Some (Inr MIN_VALUE)
        else if equals other MIN_VALUE then Some (Inr ONE)
        else
          (let halfThis = shiftRight this 1
           in bind_result (div_ts lg halfThis other) (\<lambda>q.
                let approx = shiftLeft q 1
                in if equals approx ZERO then
                     Some (Inr (if isNegative other then ONE else NEG_ONE))
                   else
                     (let rem = subtract this (multiply other approx)
                      in bind_result (div_ts lg rem other) (\<lambda>r.
                           Some (Inr (add approx r)))))))
     else if equals other MIN_VALUE then Some (Inr ZERO)
     else if isNegative this then
       (if isNegative other then div_ts lg (negate this) (negate other)
        else bind_result (div_ts lg (negate this) other) (\<lambda>q. Some (Inr (negate q))))
     else if isNegative other then
       bind_result (div_ts lg this (negate other)) (\<lambda>q. Some (Inr (negate q)))
     else Option.bind (div_loop lg other ZERO this) (\<lambda>res. Some (Inr res)))"

declare approx_loop.simps [code] div_loop.simps [code] div_ts.simps [code]

definition modulo_ts :: "(rat \<Rightarrow> int) \<Rightarrow> Timestamp \<Rightarrow> Timestamp \<Rightarrow> (error + Timestamp) option" where
  "modulo_ts lg this other =
    bind_result (div_ts lg this other) (\<lambda>q. Some (Inr (subtract this (multiply q other))))"

text \<open>An exact \<open>lg\<close>: the least \<open>k\<close> with \<open>approx \<le> 2^k\<close>, for \<open>approx \<ge> 1\<close>.\<close>

definition lg_exact :: "rat \<Rightarrow> int" where
  "lg_exact a = bitlen (\<lceil>a\<rceil> - 1)"

subsection \<open>Multiplication is multiplication modulo \<open>2^64\<close>\<close>

lemma limb_prod_bounds:
  fixes a b :: int
  assumes "0 \<le> a" "a < 65536" "0 \<le> b" "b < 65536"
  shows "0 \<le> a * b" "a * b \<le> 4294836225"
proof -
  show "0 \<le> a * b" using assms by simp
  have "a * b \<le> 65535 * 65535"
    using assms by (intro mult_mono) simp_all
  then show "a * b \<le> 4294836225" by simp
qed

lemma div_65536_bounds:
  fixes t :: int
  assumes "0 \<le> t" "t < 4294967296"
  shows "0 \<le> t div 65536" "t div 65536 < 65536" "0 \<le> t mod 65536" "t mod 65536 < 65536"
  using assms by (simp_all add: pos_imp_zdiv_nonneg_iff)

lemma mul_limbs:
  fixes a00 a16 a32 a48 b00 b16 b32 b48 :: int
  assumes t0: "t0 = a00 * b00"
    and t1: "t1 = t0 div 65536 + a16 * b00"
    and t2: "t2 = t1 mod 65536 + a00 * b16"
    and t3: "t3 = t1 div 65536 + t2 div 65536 + a32 * b00"
    and t4: "t4 = t3 mod 65536 + a16 * b16"
    and t5: "t5 = t4 mod 65536 + a00 * b32"
    and t6: "t6 = t3 div 65536 + t4 div 65536 + t5 div 65536
                 + (a48 * b00 + a32 * b16 + a16 * b32 + a00 * b48)"
  shows "(t0 mod 65536 + 65536 * (t2 mod 65536) + 4294967296 * (t5 mod 65536)
           + 281474976710656 * (t6 mod 65536)) mod 18446744073709551616
       = ((a00 + 65536 * a16 + 4294967296 * a32 + 281474976710656 * a48)
          * (b00 + 65536 * b16 + 4294967296 * b32 + 281474976710656 * b48)) mod 18446744073709551616"
proof -
  define k0 c00 where "k0 = t0 div 65536" and "c00 = t0 mod 65536"
  define k1 m1 where "k1 = t1 div 65536" and "m1 = t1 mod 65536"
  define k2 c16 where "k2 = t2 div 65536" and "c16 = t2 mod 65536"
  define k3 m3 where "k3 = t3 div 65536" and "m3 = t3 mod 65536"
  define k4 m4 where "k4 = t4 div 65536" and "m4 = t4 mod 65536"
  define k5 c32 where "k5 = t5 div 65536" and "c32 = t5 mod 65536"
  define k6 c48 where "k6 = t6 div 65536" and "c48 = t6 mod 65536"
  have d0: "t0 = 65536 * k0 + c00" unfolding k0_def c00_def by (rule mult_div_mod_eq [symmetric])
  have d1: "t1 = 65536 * k1 + m1" unfolding k1_def m1_def by (rule mult_div_mod_eq [symmetric])
  have d2: "t2 = 65536 * k2 + c16" unfolding k2_def c16_def by (rule mult_div_mod_eq [symmetric])
  have d3: "t3 = 65536 * k3 + m3" unfolding k3_def m3_def by (rule mult_div_mod_eq [symmetric])
  have d4: "t4 = 65536 * k4 + m4" unfolding k4_def m4_def by (rule mult_div_mod_eq [symmetric])
  have d5: "t5 = 65536 * k5 + c32" unfolding k5_def c32_def by (rule mult_div_mod_eq [symmetric])
  have d6: "t6 = 65536 * k6 + c48" unfolding k6_def c48_def by (rule mult_div_mod_eq [symmetric])
  define P1 where "P1 = a16 * b00 + a00 * b16"
  define P2 where "P2 = a32 * b00 + a16 * b16 + a00 * b32"
  define P3 where "P3 = a48 * b00 + a32 * b16 + a16 * b32 + a00 * b48"
  define P4 where "P4 = a16 * b48 + a32 * b32 + a48 * b16
           + 65536 * (a32 * b48 + a48 * b32) + 4294967296 * (a48 * b48)"
  define A where "A = a00 + 65536 * a16 + 4294967296 * a32 + 281474976710656 * a48"
  define B where "B = b00 + 65536 * b16 + 4294967296 * b32 + 281474976710656 * b48"
  have expand: "A * B = t0 + 65536 * P1 + 4294967296 * P2 + 281474976710656 * P3
       + 18446744073709551616 * P4"
    unfolding A_def B_def P1_def P2_def P3_def P4_def t0 by algebra
  define p10 p01 p20 p11 p02 where "p10 = a16 * b00" and "p01 = a00 * b16"
    and "p20 = a32 * b00" and "p11 = a16 * b16" and "p02 = a00 * b32"
  have e1: "t1 = k0 + p10" using t1 by (simp add: k0_def p10_def)
  have e2: "t2 = m1 + p01" using t2 by (simp add: m1_def p01_def)
  have e3: "t3 = k1 + k2 + p20" using t3 by (simp add: k1_def k2_def p20_def)
  have e4: "t4 = m3 + p11" using t4 by (simp add: m3_def p11_def)
  have e5: "t5 = m4 + p02" using t5 by (simp add: m4_def p02_def)
  have e6: "t6 = k3 + k4 + k5 + P3" using t6 by (simp add: k3_def k4_def k5_def P3_def)
  have P1: "P1 = p10 + p01" by (simp add: P1_def p10_def p01_def)
  have P2: "P2 = p20 + p11 + p02" by (simp add: P2_def p20_def p11_def p02_def)
  have s1: "t0 + 65536 * P1 = c00 + 65536 * c16 + 4294967296 * (k1 + k2)"
    using d0 d1 d2 e1 e2 P1 by algebra
  have s2: "k1 + k2 + P2 = c32 + 65536 * (k3 + k4 + k5)"
    using d3 d4 d5 e3 e4 e5 P2 by algebra
  have s3: "k3 + k4 + k5 + P3 = c48 + 65536 * k6"
    using d6 e6 by algebra
  have "A * B = (c00 + 65536 * c16 + 4294967296 * c32 + 281474976710656 * c48)
      + (k6 + P4) * 18446744073709551616"
    unfolding expand using s1 s2 s3 by algebra
  then have "(A * B) mod 18446744073709551616
      = (c00 + 65536 * c16 + 4294967296 * c32 + 281474976710656 * c48) mod 18446744073709551616"
    by (simp only: mod_mult_self1)
  then show ?thesis unfolding A_def B_def c00_def c16_def c32_def c48_def by simp
qed

lemma multiply_chunks_of_val: "multiply_chunks x y = of_val (uval x * uval y)"
proof -
  define a00 where "a00 = uint (low x) mod 65536"
  define a16 where "a16 = uint (low x) div 65536"
  define a32 where "a32 = uint (high x) mod 65536"
  define a48 where "a48 = uint (high x) div 65536"
  define b00 where "b00 = uint (low y) mod 65536"
  define b16 where "b16 = uint (low y) div 65536"
  define b32 where "b32 = uint (high y) mod 65536"
  define b48 where "b48 = uint (high y) div 65536"
  define t0 where "t0 = a00 * b00"
  define t1 where "t1 = t0 div 65536 + a16 * b00"
  define t2 where "t2 = t1 mod 65536 + a00 * b16"
  define t3 where "t3 = t1 div 65536 + t2 div 65536 + a32 * b00"
  define t4 where "t4 = t3 mod 65536 + a16 * b16"
  define t5 where "t5 = t4 mod 65536 + a00 * b32"
  define t6 where "t6 = t3 div 65536 + t4 div 65536 + t5 div 65536
                 + (a48 * b00 + a32 * b16 + a16 * b32 + a00 * b48)"
  note defs = a00_def a16_def a32_def a48_def b00_def b16_def b32_def b48_def
  have ab: "0 \<le> a00" "a00 < 65536" "0 \<le> a16" "a16 < 65536" "0 \<le> a32" "a32 < 65536"
      "0 \<le> a48" "a48 < 65536" "0 \<le> b00" "b00 < 65536" "0 \<le> b16" "b16 < 65536"
      "0 \<le> b32" "b32 < 65536" "0 \<le> b48" "b48 < 65536"
    unfolding defs by (rule limb_bounds)+
  have p00: "0 \<le> a00 * b00" "a00 * b00 \<le> 4294836225" using ab by (intro limb_prod_bounds; simp)+
  have p10: "0 \<le> a16 * b00" "a16 * b00 \<le> 4294836225" using ab by (intro limb_prod_bounds; simp)+
  have p01: "0 \<le> a00 * b16" "a00 * b16 \<le> 4294836225" using ab by (intro limb_prod_bounds; simp)+
  have p20: "0 \<le> a32 * b00" "a32 * b00 \<le> 4294836225" using ab by (intro limb_prod_bounds; simp)+
  have p11: "0 \<le> a16 * b16" "a16 * b16 \<le> 4294836225" using ab by (intro limb_prod_bounds; simp)+
  have p02: "0 \<le> a00 * b32" "a00 * b32 \<le> 4294836225" using ab by (intro limb_prod_bounds; simp)+
  have r0: "0 \<le> t0" "t0 < 4294967296" unfolding t0_def using p00 by linarith+
  note q0 = div_65536_bounds [OF r0]
  have r1: "0 \<le> t1" "t1 < 4294967296" unfolding t1_def using p10 q0 by linarith+
  note q1 = div_65536_bounds [OF r1]
  have r2: "0 \<le> t2" "t2 < 4294967296" unfolding t2_def using p01 q1 by linarith+
  note q2 = div_65536_bounds [OF r2]
  have r3: "0 \<le> t3" "t3 < 4294967296" unfolding t3_def using p20 q1 q2 by linarith+
  note q3 = div_65536_bounds [OF r3]
  have r4: "0 \<le> t4" "t4 < 4294967296" unfolding t4_def using p11 q3 by linarith+
  note q4 = div_65536_bounds [OF r4]
  have r5: "0 \<le> t5" "t5 < 4294967296" unfolding t5_def using p02 q4 by linarith+
  have u0: "js_ushr t0 16 = t0 div 65536" using r0 by (rule carry_step)
  have u1: "js_ushr t1 16 = t1 div 65536" using r1 by (rule carry_step)
  have u2: "js_ushr t2 16 = t2 div 65536" using r2 by (rule carry_step)
  have u3: "js_ushr t3 16 = t3 div 65536" using r3 by (rule carry_step)
  have u4: "js_ushr t4 16 = t4 div 65536" using r4 by (rule carry_step)
  have u5: "js_ushr t5 16 = t5 div 65536" using r5 by (rule carry_step)
  have "multiply_chunks x y = fromBits (js_or (js_shl (t2 mod 65536) 16) (t0 mod 65536))
                           (js_or (js_shl (t6 mod 65536) 16) (t5 mod 65536))"
    unfolding multiply_chunks_def Let_def js_ushr16_sint js_and16_sint add_0
    unfolding js_and16_int
    unfolding defs [symmetric] t0_def [symmetric] u0 t1_def [symmetric] u1 t2_def [symmetric] u2
      t3_def [symmetric] u3 t4_def [symmetric] u4 t5_def [symmetric] u5 t6_def [symmetric] ..
  also have "\<dots> = of_val (t0 mod 65536 + 65536 * (t2 mod 65536) + 4294967296 * (t5 mod 65536)
           + 281474976710656 * (t6 mod 65536))"
    by (rule fromBits_limbs) simp_all
  also have "\<dots> = of_val (uval x * uval y)"
    unfolding limb_split [of x] limb_split [of y] defs [symmetric]
    by (rule of_val_cong) (rule mul_limbs [OF t0_def t1_def t2_def t3_def t4_def t5_def t6_def])
  finally show ?thesis .
qed

declare fromNumber.simps [simp del]

lemma js_and_1: "js_and c 1 = c mod 2"
proof -
  have "(ToInt32 c AND ToInt32 1) = word_of_int (c AND 1)"
    unfolding ToInt32_def by (simp only: of_int_and_eq)
  moreover have "(c :: int) AND 1 = c mod 2" by (simp add: and_one_eq)
  ultimately have "(ToInt32 c AND ToInt32 1) = word_of_int (c mod 2)"
    by (simp only:)
  moreover have "0 \<le> c mod 2" "c mod 2 < 2147483648"
    using pos_mod_bound [of 2 c] by simp_all
  ultimately show ?thesis by (simp add: js_and_def sint32_small)
qed

lemma isOdd_iff: "isOdd x \<longleftrightarrow> odd (val x)"
proof -
  have "sint (low x) mod 2 = sint (low x) mod 4294967296 mod 2"
    by (simp add: mod_mod_cancel)
  also have "\<dots> = val x mod 4294967296 mod 2"
    by (simp only: word_of_sint_mod val_mod)
  also have "\<dots> = val x mod 2"
    by (simp add: mod_mod_cancel)
  finally show ?thesis by (simp add: isOdd_def js_and_1 odd_iff_mod_2_eq_one)
qed

lemma val_nonneg_uval: "0 \<le> val x \<Longrightarrow> uval x = val x"
  using val_uval_cases [of x] uval_bounds [of x] val_upper [of x] by linarith

lemma of_val_MIN_mult:
  "of_val (- 9223372036854775808 * n) = (if odd n then MIN_VALUE else ZERO)"
proof (cases "odd n")
  case True
  then obtain k where "n = 2 * k + 1" by (elim oddE)
  then have "(- 9223372036854775808 * n) mod 18446744073709551616
      = (- 9223372036854775808 + (- k) * 18446744073709551616) mod 18446744073709551616"
    by (simp add: algebra_simps)
  also have "\<dots> = (- 9223372036854775808) mod 18446744073709551616"
    by (simp only: mod_mult_self1)
  finally have "of_val (- 9223372036854775808 * n) = of_val (- 9223372036854775808)"
    by (rule of_val_cong)
  also have "\<dots> = MIN_VALUE"
    using of_val_val [of MIN_VALUE] by (simp add: val_consts)
  finally show ?thesis using True by simp
next
  case False
  then have "even n" by simp
  then obtain k where "n = 2 * k" by (elim evenE)
  then have "(- 9223372036854775808 * n) mod 18446744073709551616
      = (0 + (- k) * 18446744073709551616) mod 18446744073709551616"
    by (simp add: algebra_simps)
  also have "\<dots> = 0 mod 18446744073709551616"
    by (simp only: mod_mult_self1)
  finally have "of_val (- 9223372036854775808 * n) = of_val 0"
    by (rule of_val_cong)
  also have "\<dots> = ZERO"
    using of_val_val [of ZERO] by (simp add: val_consts)
  finally show ?thesis using False by simp
qed

lemma of_val_neg_wrap: "of_val (- wrap64 n) = of_val (- n)"
proof (rule of_val_cong)
  have "(- wrap64 n) mod 18446744073709551616 = (- (wrap64 n mod 18446744073709551616)) mod 18446744073709551616"
    by (simp add: mod_minus_eq)
  also have "\<dots> = (- (n mod 18446744073709551616)) mod 18446744073709551616"
    by (simp only: wrap64_mod)
  also have "\<dots> = (- n) mod 18446744073709551616"
    by (simp add: mod_minus_eq)
  finally show "(- wrap64 n) mod 18446744073709551616 = (- n) mod 18446744073709551616" .
qed

lemma multiply_of_val: "multiply x y = of_val (val x * val y)"
proof (induction x y rule: multiply.induct)
  case (1 this other)
  consider (z1) "isZero this" | (z2) "\<not> isZero this" "isZero other"
    | (m1) "\<not> isZero this" "\<not> isZero other" "this = MIN_VALUE"
    | (m2) "\<not> isZero this" "\<not> isZero other" "this \<noteq> MIN_VALUE" "other = MIN_VALUE"
    | (nn) "\<not> isZero this" "\<not> isZero other" "this \<noteq> MIN_VALUE" "other \<noteq> MIN_VALUE"
        "isNegative this" "isNegative other"
    | (np) "\<not> isZero this" "\<not> isZero other" "this \<noteq> MIN_VALUE" "other \<noteq> MIN_VALUE"
        "isNegative this" "\<not> isNegative other"
    | (pn) "\<not> isZero this" "\<not> isZero other" "this \<noteq> MIN_VALUE" "other \<noteq> MIN_VALUE"
        "\<not> isNegative this" "isNegative other"
    | (small) "\<not> isZero this" "\<not> isZero other" "this \<noteq> MIN_VALUE" "other \<noteq> MIN_VALUE"
        "\<not> isNegative this" "\<not> isNegative other"
        "lessThan_ts this TWO_PWR_24 \<and> lessThan_ts other TWO_PWR_24"
    | (big) "\<not> isZero this" "\<not> isZero other" "this \<noteq> MIN_VALUE" "other \<noteq> MIN_VALUE"
        "\<not> isNegative this" "\<not> isNegative other"
        "\<not> (lessThan_ts this TWO_PWR_24 \<and> lessThan_ts other TWO_PWR_24)"
    by blast
  then show ?case
  proof cases
    case z1
    then have "multiply this other = ZERO" by (subst multiply.simps) simp
    moreover have "of_val 0 = ZERO" using of_val_val [of ZERO] by (simp add: val_consts)
    ultimately show ?thesis using z1 by (simp add: isZero_iff)
  next
    case z2
    then have "multiply this other = ZERO" by (subst multiply.simps) simp
    moreover have "of_val 0 = ZERO" using of_val_val [of ZERO] by (simp add: val_consts)
    ultimately show ?thesis using z2 by (simp add: isZero_iff)
  next
    case m1
    then have "multiply this other = (if isOdd other then MIN_VALUE else ZERO)"
      by (subst multiply.simps) (simp add: equals_iff)
    then show ?thesis
      using m1(3) of_val_MIN_mult [of "val other"] by (simp add: isOdd_iff val_consts)
  next
    case m2
    then have "multiply this other = (if isOdd this then MIN_VALUE else ZERO)"
      by (subst multiply.simps) (simp add: equals_iff)
    then show ?thesis
      using m2(4) of_val_MIN_mult [of "val this"] by (simp add: isOdd_iff val_consts mult.commute)
  next
    case nn
    then have "multiply this other = multiply (negate this) (negate other)"
      by (subst multiply.simps) (simp add: equals_iff)
    also have "\<dots> = of_val (val (negate this) * val (negate other))"
      using nn by (intro "1.IH"(1)) (simp_all add: equals_iff)
    finally show ?thesis using nn by (simp add: val_negate)
  next
    case np
    then have "multiply this other = negate (multiply (negate this) other)"
      by (subst multiply.simps) (simp add: equals_iff)
    also have "multiply (negate this) other = of_val (val (negate this) * val other)"
      using np by (intro "1.IH"(2)) (simp_all add: equals_iff)
    also have "val (negate this) = - val this" using np by (simp add: val_negate)
    also have "negate (of_val (- val this * val other)) = of_val (- wrap64 (- val this * val other))"
      by (simp only: negate_of_val val_of_val)
    also have "\<dots> = of_val (- (- val this * val other))" by (rule of_val_neg_wrap)
    finally show ?thesis by simp
  next
    case pn
    then have "multiply this other = negate (multiply this (negate other))"
      by (subst multiply.simps) (simp add: equals_iff)
    also have "multiply this (negate other) = of_val (val this * val (negate other))"
      using pn by (intro "1.IH"(3)) (simp_all add: equals_iff)
    also have "val (negate other) = - val other" using pn by (simp add: val_negate)
    also have "negate (of_val (val this * - val other)) = of_val (- wrap64 (val this * - val other))"
      by (simp only: negate_of_val val_of_val)
    also have "\<dots> = of_val (- (val this * - val other))" by (rule of_val_neg_wrap)
    finally show ?thesis by simp
  next
    case small
    then have m: "multiply this other = fromNumber (Fin (fmul (toNumber this) (toNumber other)))"
      by (subst multiply.simps) (simp add: equals_iff)
    have a: "0 \<le> val this" "val this < 16777216" "0 \<le> val other" "val other < 16777216"
      using small by (simp_all add: isNegative_iff order_iffs val_consts)
    have ta: "toNumber this = of_int (val this)" using a by (intro toNumber_small) simp
    have tb: "toNumber other = of_int (val other)" using a by (intro toNumber_small) simp
    have "val this * val other \<le> 16777216 * 16777216"
      using a by (intro mult_mono) simp_all
    then have p: "0 \<le> val this * val other" "val this * val other \<le> 9007199254740992"
      using a by simp_all
    then have "fl (of_int (val this * val other)) = of_int (val this * val other)"
      by (intro fl_int_exact) simp
    then have f: "fmul (toNumber this) (toNumber other) = of_int (val this * val other)"
      by (simp add: fmul_def ta tb)
    show ?thesis unfolding m f using p by (rule fromNumber_small)
  next
    case big
    then have "multiply this other = multiply_chunks this other"
      by (subst multiply.simps) (auto simp add: equals_iff)
    then show ?thesis using big
      by (simp add: multiply_chunks_of_val val_nonneg_uval isNegative_iff)
  qed
qed

section \<open>The division loop terminates\<close>

text \<open>What the division needs of \<open>lg\<close> (\<open>Math.ceil(Math.log(approx) / Math.LN2)\<close>): on an
  integer \<open>n \<ge> 1\<close> it is the binary logarithm of \<open>n\<close> up to an error below one on the
  low side and below two on the high side.\<close>

definition lg_ok :: "(rat \<Rightarrow> int) \<Rightarrow> bool" where
  "lg_ok lg \<longleftrightarrow>
     (\<forall>n :: int. 1 \<le> n \<longrightarrow>
        of_int n < pow2 (lg (of_int n) + 1) \<and> pow2 (lg (of_int n)) < 4 * of_int n)"

lemma fl_weak:
  assumes "0 < z"
  shows "fl z \<le> 9 / 8 * z" "7 / 8 * z \<le> fl z"
proof -
  have "\<bar>fl z - z\<bar> \<le> z / 9007199254740992" using assms by (rule fl_rel_error_pos)
  moreover have "z / 9007199254740992 \<le> z / 8" using assms by simp
  ultimately have "\<bar>fl z - z\<bar> \<le> z / 8" by linarith
  then show "fl z \<le> 9 / 8 * z" "7 / 8 * z \<le> fl z" by linarith+
qed

lemma fl_of_int_floor:
  assumes "fl x = x" "0 \<le> x"
  shows "fl (of_int \<lfloor>x\<rfloor>) = of_int \<lfloor>x\<rfloor>"
proof (cases "x < 9007199254740992")
  case True
  then have "\<lfloor>x\<rfloor> \<le> 9007199254740992" by (simp add: floor_le_iff)
  moreover have "0 \<le> \<lfloor>x\<rfloor>" using assms(2) by simp
  ultimately show ?thesis by (intro fl_int_exact) simp
next
  case False
  then have "9007199254740992 \<le> x" by simp
  with assms(1) obtain n where "x = of_int n" using double_ge_2p53_int by blast
  then show ?thesis using assms(1) by simp
qed

lemma fl_idem: "fl (fl x) = fl x"
proof -
  have pos: "fl (fl z) = fl z" if z: "0 < z" for z
  proof -
    obtain m where m: "fl z = of_int m * pow2 (binade z - 52)" "4503599627370496 \<le> m"
        "m \<le> 9007199254740992"
      using fl_grid [OF z] by blast
    have "fl (of_int m * pow2 (binade z - 52)) = of_int m * pow2 (binade z - 52)"
      using m(2,3) by (intro fl_representable) simp
    then show ?thesis by (simp add: m(1))
  qed
  consider "x = 0" | "0 < x" | "0 < - x" by linarith
  then show ?thesis
  proof cases
    case 1
    then show ?thesis by simp
  next
    case 2
    then show ?thesis by (rule pos)
  next
    case 3
    then have "fl (fl (- x)) = fl (- x)" by (rule pos)
    then show ?thesis by (simp add: fl_minus)
  qed
qed

lemma approx_bound:
  fixes D R :: int
  assumes "1 \<le> D" "D \<le> R"
  defines "N0 \<equiv> max 1 \<lfloor>fdiv (fl (of_int R)) (fl (of_int D))\<rfloor>"
  shows "1 \<le> N0" "N0 * D \<le> 2 * R" "fl (of_int N0) = of_int N0"
proof -
  let ?x = "fl (of_int R)" and ?y = "fl (of_int D)"
  let ?A = "fdiv ?x ?y"
  have Rpos: "(0 :: rat) < of_int R" and Dpos: "(0 :: rat) < of_int D"
    using assms(1,2) by simp_all
  have x: "0 < ?x" "?x \<le> 9 / 8 * of_int R"
    using fl_pos [OF Rpos] fl_weak(1) [OF Rpos] by simp_all
  have y: "0 < ?y" "7 / 8 * of_int D \<le> ?y"
    using fl_pos [OF Dpos] fl_weak(2) [OF Dpos] by simp_all
  have q: "0 < ?x / ?y" using x(1) y(1) by simp
  show "1 \<le> N0" by (simp add: N0_def)
  have A: "?A = fl (?x / ?y)" by (simp add: fdiv_def)
  have Apos: "0 < ?A" unfolding A using q by (rule fl_pos)
  show "fl (of_int N0) = of_int N0"
  proof (cases "1 \<le> \<lfloor>?A\<rfloor>")
    case True
    then have "N0 = \<lfloor>?A\<rfloor>" by (simp add: N0_def)
    moreover have "fl (of_int \<lfloor>?A\<rfloor>) = of_int \<lfloor>?A\<rfloor>"
      using Apos by (intro fl_of_int_floor) (simp_all add: A fl_idem)
    ultimately show ?thesis by simp
  next
    case False
    then have "N0 = 1" by (simp add: N0_def)
    then show ?thesis using fl_int_exact [of 1] by simp
  qed
  show "N0 * D \<le> 2 * R"
  proof (cases "1 \<le> \<lfloor>?A\<rfloor>")
    case False
    then have "N0 = 1" by (simp add: N0_def)
    then show ?thesis using assms(1,2) by simp
  next
    case True
    then have "N0 = \<lfloor>?A\<rfloor>" by (simp add: N0_def)
    then have "(of_int N0 :: rat) \<le> ?A" by simp
    also have "?A \<le> 9 / 8 * (?x / ?y)" unfolding A using q by (rule fl_weak(1))
    also have "?x / ?y \<le> (9 / 8 * of_int R) / (7 / 8 * of_int D)"
      using x y Dpos by (intro frac_le) simp_all
    finally have "(of_int N0 :: rat) \<le> 9 / 8 * ((9 / 8 * of_int R) / (7 / 8 * of_int D))"
      by simp
    also have "\<dots> = (81 / 56 * of_int R) / of_int D" by simp
    finally have "of_int N0 * of_int D \<le> (81 / 56) * (of_int R :: rat)"
      using Dpos by (simp add: pos_le_divide_eq)
    also have "\<dots> \<le> 2 * of_int R" using Rpos by simp
    finally have "(of_int (N0 * D) :: rat) \<le> of_int (2 * R)" by simp
    then show ?thesis by (simp only: of_int_le_iff)
  qed
qed

lemma fromNumber_clamp:
  assumes "0 \<le> N" "fl (of_int N) = of_int N"
  shows "fromNumber (Fin (of_int N)) = of_val (min N 9223372036854775807)"
proof (cases "N < 9223372036854775808")
  case True
  with assms have "fromNumber (Fin (of_int N)) = of_val N" by (intro fromNumber_representable)
  moreover have "N \<le> 9223372036854774784" using assms(2) True by (rule representable_below_2p63)
  ultimately show ?thesis by simp
next
  case False
  then have "(of_int 9223372036854775808 :: rat) \<le> of_int N" by (simp only: of_int_le_iff)
  then have "(9223372036854775808 :: rat) \<le> of_int N + 1" by simp
  then have "fromNumber (Fin (of_int N)) = MAX_VALUE" by (rule fromNumber_clamp_max)
  moreover have "of_val 9223372036854775807 = MAX_VALUE"
    using of_val_val [of MAX_VALUE] by (simp add: val_consts)
  ultimately show ?thesis using False by simp
qed

lemma fl_sub_grid:
  fixes N0 N :: int and d :: nat
  assumes "1 \<le> N0" "fl (of_int N0) = of_int N0" "of_int N0 < pow2 (int d + 53)"
    and "1 \<le> N" "N \<le> N0" "2 ^ d dvd (N0 - N)"
  shows "fl (of_int N) = of_int N"
proof (cases "N0 \<le> 9007199254740992")
  case True
  with assms(4,5) show ?thesis by (intro fl_int_exact) simp
next
  case False
  let ?x = "of_int N0 :: rat"
  have x: "0 < ?x" using assms(1) by simp
  have "(of_int 9007199254740992 :: rat) \<le> of_int N0" using False by (simp only: of_int_le_iff)
  then have "pow2 53 \<le> ?x" by (simp add: pow2_def)
  then have b1: "53 \<le> binade ?x" by (rule binade_ge)
  have b2: "binade ?x < int d + 53" using x assms(3) by (rule binade_le)
  define e where "e = nat (binade ?x - 52)"
  have e: "int e = binade ?x - 52" "e \<le> d" using b1 b2 by (simp_all add: e_def)
  obtain m where m: "fl ?x = of_int m * pow2 (binade ?x - 52)" "m \<le> 9007199254740992"
    using fl_grid [OF x] by blast
  have p: "pow2 (binade ?x - 52) = of_int (2 ^ e)"
    using e(1) pow2_nat [of e] by simp
  have "?x = of_int (m * 2 ^ e)" using m(1) assms(2) p by simp
  then have N0: "N0 = m * 2 ^ e" by (simp only: of_int_eq_iff)
  have "(2 :: int) ^ e dvd 2 ^ d" using e(2) by (simp add: le_imp_power_dvd)
  then have d1: "(2 :: int) ^ e dvd N0 - N" using assms(6) by (rule dvd_trans)
  have d2: "(2 :: int) ^ e dvd N0" unfolding N0 by simp
  have "(2 :: int) ^ e dvd N0 - (N0 - N)" using d2 d1 by (rule dvd_diff)
  then have "(2 :: int) ^ e dvd N" by simp
  then obtain k where k: "N = 2 ^ e * k" ..
  have "0 < 2 ^ e * k" using assms(4) unfolding k by linarith
  then have "0 < k" by (simp add: zero_less_mult_iff)
  moreover have "2 ^ e * k \<le> m * 2 ^ e" using assms(5) unfolding k N0 .
  then have "k \<le> m" by (simp add: mult.commute)
  ultimately have "\<bar>k\<bar> \<le> 9007199254740992" using m(2) by simp
  then have "fl (of_int k * pow2 (int e)) = of_int k * pow2 (int e)" by (rule fl_representable)
  then show ?thesis unfolding k by (simp add: pow2_nat mult.commute)
qed

lemma mod_shift:
  fixes v m :: int
  assumes "0 \<le> v - m" "v - m < m"
  shows "v mod m = v - m"
proof -
  have "(v - m) mod m = v - m" using assms by (rule mod_pos_pos_trivial)
  moreover have "(v - m) mod m = v mod m" by (rule minus_mod_self2)
  ultimately show ?thesis by simp
qed

lemma wrap64_high:
  assumes "9223372036854775808 \<le> n" "n < 18446744073709551616"
  shows "wrap64 n = n - 18446744073709551616"
proof -
  have "(n + 9223372036854775808) mod 18446744073709551616
      = (n + 9223372036854775808) - 18446744073709551616"
    by (rule mod_shift) (use assms in linarith)+
  then show ?thesis by (simp add: wrap64_def)
qed

lemma loop_cond:
  assumes "1 \<le> g" "g * val other < 18446744073709551616" "1 \<le> val other"
  shows "isNegative (of_val (g * val other)) \<or> greaterThan_ts (of_val (g * val other)) rem
           \<longleftrightarrow> val rem < g * val other"
proof (cases "g * val other < 9223372036854775808")
  case True
  have nn: "0 \<le> g * val other" using assms(1,3) by simp
  then have "wrap64 (g * val other) = g * val other"
    using True by (intro wrap64_id) linarith+
  then show ?thesis using nn by (simp add: isNegative_iff order_iffs val_of_val)
next
  case False
  then have "wrap64 (g * val other) = g * val other - 18446744073709551616"
    using assms(2) by (intro wrap64_high) linarith+
  then have "val (of_val (g * val other)) < 0" using assms(2) by (simp add: val_of_val)
  moreover have "val rem < g * val other" using False val_upper [of rem] by linarith
  ultimately show ?thesis by (simp add: isNegative_iff)
qed

lemma approx_loop_terminates:
  fixes N0 :: int and d :: nat
  assumes D: "1 \<le> val other"
    and d: "2 ^ d * val other \<le> val rem"
    and N0: "1 \<le> N0" "fl (of_int N0) = of_int N0" "N0 * val other < 18446744073709551616"
      "of_int N0 < pow2 (int d + 53)"
  shows "1 \<le> N \<Longrightarrow> N \<le> N0 \<Longrightarrow> 2 ^ d dvd (N0 - N) \<Longrightarrow>
    \<exists>M. 1 \<le> M \<and> M \<le> N \<and> fl (of_int M) = of_int M \<and>
      min M 9223372036854775807 * val other \<le> val rem \<and>
      approx_loop other rem (pow2 (int d)) (of_int N) (fromNumber (Fin (of_int N)))
          (multiply (fromNumber (Fin (of_int N))) other)
        = Some (of_int M, fromNumber (Fin (of_int M)), multiply (fromNumber (Fin (of_int M))) other)"
proof (induction "nat N" arbitrary: N rule: less_induct)
  case less
  define g where "g = min N 9223372036854775807"
  have rep: "fl (of_int N) = of_int N"
    using N0(1,2,4) less.prems by (rule fl_sub_grid)
  have res: "fromNumber (Fin (of_int N)) = of_val g"
    unfolding g_def using less.prems(1) rep by (intro fromNumber_clamp) simp_all
  have rem': "multiply (of_val g) other = of_val (g * val other)"
  proof -
    have "multiply (of_val g) other = of_val (wrap64 g * val other)"
      by (simp add: multiply_of_val val_of_val)
    moreover have "wrap64 g = g" using less.prems(1) unfolding g_def by (intro wrap64_id) simp_all
    ultimately show ?thesis by simp
  qed
  have g: "1 \<le> g" "g \<le> N" using less.prems(1) by (simp_all add: g_def)
  have "g * val other \<le> N0 * val other"
    using g(2) less.prems(2) D by (intro mult_right_mono) simp_all
  then have gD: "g * val other < 18446744073709551616" using N0(3) by linarith
  have cond: "isNegative (of_val (g * val other)) \<or> greaterThan_ts (of_val (g * val other)) rem
           \<longleftrightarrow> val rem < g * val other"
    using g(1) gD D by (rule loop_cond)
  show ?case
  proof (cases "val rem < g * val other")
    case False
    then have "approx_loop other rem (pow2 (int d)) (of_int N) (fromNumber (Fin (of_int N)))
          (multiply (fromNumber (Fin (of_int N))) other)
        = Some (of_int N, fromNumber (Fin (of_int N)), multiply (fromNumber (Fin (of_int N))) other)"
      using cond by (subst approx_loop.simps) (simp add: res rem')
    moreover have "min N 9223372036854775807 * val other \<le> val rem"
      using False by (simp add: g_def)
    ultimately show ?thesis using less.prems(1) rep by blast
  next
    case True
    define N' where "N' = N - 2 ^ d"
    have "2 ^ d * val other < g * val other" using d True by linarith
    then have "2 ^ d < g" using D by (simp add: mult_less_cancel_right)
    then have N'1: "1 \<le> N'" using g(2) unfolding N'_def by linarith
    have pd: "(0 :: int) < 2 ^ d" by simp
    have N'2: "N' \<le> N0" "N' < N" using less.prems(2) pd unfolding N'_def by linarith+
    have e: "N0 - N' = (N0 - N) + 2 ^ d" by (simp add: N'_def)
    have N'3: "2 ^ d dvd (N0 - N')" unfolding e using less.prems(3) by (rule dvd_add) simp
    have rep': "fl (of_int N') = of_int N'"
      using N0(1,2,4) N'1 N'2(1) N'3 by (rule fl_sub_grid)
    have step: "fsub (of_int N) (pow2 (int d)) = of_int N'"
      using rep' by (simp add: fsub_def N'_def pow2_nat)
    have "nat N' < nat N" using N'1 N'2(2) by simp
    then obtain M where M: "1 \<le> M" "M \<le> N'" "fl (of_int M) = of_int M"
      "min M 9223372036854775807 * val other \<le> val rem"
      "approx_loop other rem (pow2 (int d)) (of_int N') (fromNumber (Fin (of_int N')))
          (multiply (fromNumber (Fin (of_int N'))) other)
        = Some (of_int M, fromNumber (Fin (of_int M)), multiply (fromNumber (Fin (of_int M))) other)"
      using less.hyps [of N'] N'1 N'2(1) N'3 by blast
    have "approx_loop other rem (pow2 (int d)) (of_int N) (fromNumber (Fin (of_int N)))
          (multiply (fromNumber (Fin (of_int N))) other)
        = approx_loop other rem (pow2 (int d)) (of_int N') (fromNumber (Fin (of_int N')))
          (multiply (fromNumber (Fin (of_int N'))) other)"
      using cond True by (subst approx_loop.simps) (simp add: res rem' step Let_def)
    with M have "approx_loop other rem (pow2 (int d)) (of_int N) (fromNumber (Fin (of_int N)))
          (multiply (fromNumber (Fin (of_int N))) other)
        = Some (of_int M, fromNumber (Fin (of_int M)), multiply (fromNumber (Fin (of_int M))) other)"
      by simp
    moreover have "M \<le> N" using M(2) N'2(2) by simp
    ultimately show ?thesis using M(1,3,4) by blast
  qed
qed

lemma of_val_add_wrap: "of_val (wrap64 s + q) = of_val (s + q)"
proof (rule of_val_cong)
  have "(wrap64 s + q) mod 18446744073709551616
      = (wrap64 s mod 18446744073709551616 + q) mod 18446744073709551616"
    by (simp add: mod_add_left_eq)
  also have "\<dots> = (s mod 18446744073709551616 + q) mod 18446744073709551616"
    by (simp only: wrap64_mod)
  also have "\<dots> = (s + q) mod 18446744073709551616"
    by (simp add: mod_add_left_eq)
  finally show "(wrap64 s + q) mod 18446744073709551616 = (s + q) mod 18446744073709551616" .
qed

lemma div_sub_mult:
  fixes a b k :: int
  assumes "b \<noteq> 0"
  shows "(a - k * b) div b = a div b - k"
proof -
  have "(a + (- k) * b) div b = - k + a div b" using assms by (rule div_mult_self1)
  then show ?thesis by simp
qed

lemma div_loop_step_setup:
  fixes D R :: int
  assumes lg: "lg_ok lg" and D: "1 \<le> D" "D \<le> R" "R < 9223372036854775808"
  defines "N0 \<equiv> max 1 \<lfloor>fdiv (fl (of_int R)) (fl (of_int D))\<rfloor>"
  defines "d \<equiv> nat (lg (of_int N0) - 48)"
  shows "(if lg (of_int N0) \<le> 48 then 1 else pow2 (lg (of_int N0) - 48)) = pow2 (int d)"
    and "2 ^ d * D \<le> R"
    and "N0 * D < 18446744073709551616"
    and "of_int N0 < pow2 (int d + 53)"
    and "1 \<le> N0" and "fl (of_int N0) = of_int N0"
proof -
  note b = approx_bound [OF D(1,2), folded N0_def]
  show "1 \<le> N0" "fl (of_int N0) = of_int N0" by (rule b)+
  let ?L = "lg (of_int N0)"
  have L: "of_int N0 < pow2 (?L + 1)" "pow2 ?L < 4 * of_int N0"
    using lg b(1) by (simp_all add: lg_ok_def)
  show "(if ?L \<le> 48 then 1 else pow2 (?L - 48)) = pow2 (int d)"
    by (simp add: d_def)
  show "N0 * D < 18446744073709551616" using b(2) D(3) by linarith
  have "?L + 1 \<le> int d + 53" by (simp add: d_def)
  then have "pow2 (?L + 1) \<le> pow2 (int d + 53)" by (rule pow2_mono)
  with L(1) show "of_int N0 < pow2 (int d + 53)" by linarith
  show "2 ^ d * D \<le> R"
  proof (cases "?L \<le> 48")
    case True
    then show ?thesis using D(2) by (simp add: d_def)
  next
    case False
    then have dL: "int d = ?L - 48" by (simp add: d_def)
    have "?L = 48 + int d" using dL by simp
    then have "pow2 ?L = pow2 48 * pow2 (int d)" by (metis pow2_add)
    also have "\<dots> = of_int (281474976710656 * 2 ^ d)" by (simp add: pow2_nat pow2_def)
    finally have "(of_int (281474976710656 * 2 ^ d) :: rat) < of_int (4 * N0)"
      using L(2) by simp
    then have "281474976710656 * 2 ^ d < 4 * N0" by (simp only: of_int_less_iff)
    then have "(281474976710656 * 2 ^ d) * D < (4 * N0) * D"
      using D(1) by (intro mult_strict_right_mono) simp_all
    then have "281474976710656 * (2 ^ d * D) < 4 * (N0 * D)" by (simp add: mult.assoc)
    with b(2) have "281474976710656 * (2 ^ d * D) < 8 * R" by linarith
    moreover have "0 \<le> R" using D by simp
    ultimately show ?thesis by linarith
  qed
qed

lemma div_loop_correct:
  assumes lg: "lg_ok lg" and D: "1 \<le> val other"
  shows "0 \<le> val rem \<Longrightarrow>
    div_loop lg other res rem = Some (of_val (val res + val rem div val other))"
proof (induction "nat (val rem)" arbitrary: rem res rule: less_induct)
  case less
  let ?D = "val other" and ?R = "val rem"
  show ?case
  proof (cases "?R < ?D")
    case True
    then have "?R div ?D = 0" using less.prems by (simp add: div_pos_pos_trivial)
    moreover have "div_loop lg other res rem = Some res"
      using True by (subst div_loop.simps) (simp add: order_iffs)
    ultimately show ?thesis by (simp add: of_val_val)
  next
    case False
    then have DR: "?D \<le> ?R" by simp
    have Rb: "?R < 9223372036854775808" by (rule val_upper)
    define N0 where "N0 = max 1 \<lfloor>fdiv (fl (of_int ?R)) (fl (of_int ?D))\<rfloor>"
    define d where "d = nat (lg (of_int N0) - 48)"
    note s = div_loop_step_setup [OF lg D DR Rb, folded N0_def, folded d_def]
    have "\<exists>M. 1 \<le> M \<and> M \<le> N0 \<and> fl (of_int M) = of_int M \<and>
      min M 9223372036854775807 * ?D \<le> ?R \<and>
      approx_loop other rem (pow2 (int d)) (of_int N0) (fromNumber (Fin (of_int N0)))
          (multiply (fromNumber (Fin (of_int N0))) other)
        = Some (of_int M, fromNumber (Fin (of_int M)), multiply (fromNumber (Fin (of_int M))) other)"
      using D s(2) s(5) s(6) s(3) s(4) by (rule approx_loop_terminates) (use s(5) in simp_all)
    then obtain M where M: "1 \<le> M" "fl (of_int M) = of_int M"
      "min M 9223372036854775807 * ?D \<le> ?R"
      "approx_loop other rem (pow2 (int d)) (of_int N0) (fromNumber (Fin (of_int N0)))
          (multiply (fromNumber (Fin (of_int N0))) other)
        = Some (of_int M, fromNumber (Fin (of_int M)), multiply (fromNumber (Fin (of_int M))) other)"
      by blast
    define g where "g = min M 9223372036854775807"
    have g: "1 \<le> g" "g < 9223372036854775808" using M(1) by (simp_all add: g_def)
    have wg: "wrap64 g = g" using g by (intro wrap64_id) simp_all
    have res: "fromNumber (Fin (of_int M)) = of_val g"
      unfolding g_def using M(1,2) by (intro fromNumber_clamp) simp_all
    have gD: "g * ?D \<le> ?R" using M(3) by (simp add: g_def)
    have "1 * 1 \<le> g * ?D" using g(1) D by (intro mult_mono) simp_all
    then have gD1: "1 \<le> g * ?D" by simp
    have wgD: "wrap64 (g * ?D) = g * ?D" using gD gD1 Rb by (intro wrap64_id) linarith+
    have rm: "multiply (of_val g) other = of_val (g * ?D)"
      by (simp add: multiply_of_val val_of_val wg)
    have nz: "\<not> isZero (of_val g)" using g(1) by (simp add: isZero_iff val_of_val wg)
    define res' where "res' = add res (of_val g)"
    define rem' where "rem' = subtract rem (of_val (g * ?D))"
    have vr: "val rem' = ?R - g * ?D"
    proof -
      have "wrap64 (?R - g * ?D) = ?R - g * ?D"
        using gD gD1 Rb by (intro wrap64_id) linarith+
      then show ?thesis by (simp add: rem'_def subtract_of_val val_of_val wgD)
    qed
    have e_approx: "max 1 (of_int \<lfloor>fdiv (toNumber rem) (toNumber other)\<rfloor>) = (of_int N0 :: rat)"
      by (simp add: N0_def toNumber_eq)
    have unfold: "div_loop lg other res rem = div_loop lg other res' rem'"
      using DR
      by (subst div_loop.simps)
        (simp add: order_iffs e_approx s(1) M(4) res rm nz Let_def res'_def rem'_def)
    have "nat (val rem') < nat ?R" using vr gD gD1 by simp
    moreover have "0 \<le> val rem'" using vr gD by simp
    ultimately have "div_loop lg other res' rem'
        = Some (of_val (val res' + val rem' div ?D))"
      by (rule less.hyps)
    also have "val rem' div ?D = ?R div ?D - g"
      unfolding vr using D by (intro div_sub_mult) simp
    also have "val res' = wrap64 (val res + g)"
      by (simp add: res'_def add_of_val val_of_val wg)
    also have "of_val (wrap64 (val res + g) + (?R div ?D - g)) = of_val (val res + g + (?R div ?D - g))"
      by (rule of_val_add_wrap)
    finally show ?thesis unfolding unfold by simp
  qed
qed

section \<open>Division returns the truncated quotient\<close>

text \<open>Integer division truncating towards zero, as Java's \<open>long\<close> division does.\<close>

definition tdiv :: "int \<Rightarrow> int \<Rightarrow> int" where
  "tdiv a b = sgn a * sgn b * (\<bar>a\<bar> div \<bar>b\<bar>)"

lemma bind_result_Inr [simp]: "bind_result (Some (Inr a)) f = f a"
  by (simp add: bind_result_def)

lemma bind_result_Inl [simp]: "bind_result (Some (Inl e)) f = Some (Inl e)"
  by (simp add: bind_result_def)

lemma bind_result_None [simp]: "bind_result None f = None"
  by (simp add: bind_result_def)

lemma of_val_0: "of_val 0 = ZERO"
  using of_val_val [of ZERO] by (simp add: val_consts)

lemma MIN_VALUE_iff: "x = MIN_VALUE \<longleftrightarrow> val x = - 9223372036854775808"
  using val_inj [of x MIN_VALUE] by (auto simp add: val_consts)

lemma div_ts_pos:
  assumes "lg_ok lg" "0 < val x" "0 < val y"
  shows "div_ts lg x y = Some (Inr (of_val (val x div val y)))"
proof -
  have y: "1 \<le> val y" using assms(3) by simp
  have "div_loop lg y ZERO x = Some (of_val (val ZERO + val x div val y))"
    using assms(1) y by (rule div_loop_correct) (use assms(2) in simp)
  then have l: "div_loop lg y ZERO x = Some (of_val (val x div val y))"
    by (simp add: val_consts)
  have "\<not> isZero y" "\<not> isZero x" "\<not> equals x MIN_VALUE" "\<not> equals y MIN_VALUE"
    "\<not> isNegative x" "\<not> isNegative y"
    using assms(2,3) by (simp_all add: isZero_iff equals_iff MIN_VALUE_iff isNegative_iff)
  then show ?thesis by (subst div_ts.simps) (simp add: l)
qed

lemma negate_of_val_small:
  assumes "- 9223372036854775808 \<le> n" "n < 9223372036854775808"
  shows "negate (of_val n) = of_val (- n)"
  using assms by (simp add: negate_of_val val_of_val wrap64_id)

lemma div_bounds_pos:
  fixes a b :: int
  assumes "0 \<le> a" "0 < b"
  shows "0 \<le> a div b" "a div b \<le> a"
proof -
  show "0 \<le> a div b" using assms by (simp add: pos_imp_zdiv_nonneg_iff)
  have "a div b * 1 \<le> a div b * b"
    using assms \<open>0 \<le> a div b\<close> by (intro mult_left_mono) simp_all
  also have "\<dots> \<le> a"
  proof -
    have "a = a div b * b + a mod b" by simp
    moreover have "0 \<le> a mod b" using assms(2) by simp
    ultimately show ?thesis by linarith
  qed
  finally show "a div b \<le> a" by simp
qed

lemma div_ts_nonMIN:
  assumes lg: "lg_ok lg" and y: "\<not> isZero y" and x: "x \<noteq> MIN_VALUE"
  shows "div_ts lg x y = Some (Inr (of_val (tdiv (val x) (val y))))"
proof -
  have vy: "val y \<noteq> 0" using y by (simp add: isZero_iff)
  have vx: "- 9223372036854775808 < val x" "val x < 9223372036854775808"
    using x val_lower [of x] val_upper [of x] by (simp_all add: MIN_VALUE_iff)
  consider (zero) "val x = 0"
    | (ymin) "val x \<noteq> 0" "y = MIN_VALUE"
    | (nn) "val x < 0" "val y < 0" "y \<noteq> MIN_VALUE"
    | (np) "val x < 0" "0 < val y"
    | (pn) "0 < val x" "val y < 0" "y \<noteq> MIN_VALUE"
    | (pp) "0 < val x" "0 < val y"
    using vy by (cases "val x" "0 :: int" rule: linorder_cases;
                 cases "val y" "0 :: int" rule: linorder_cases) auto
  then show ?thesis
  proof cases
    case zero
    then have "div_ts lg x y = Some (Inr ZERO)"
      using y by (subst div_ts.simps) (simp add: isZero_iff)
    then show ?thesis using zero by (simp add: tdiv_def of_val_0)
  next
    case ymin
    then have "div_ts lg x y = Some (Inr ZERO)"
      using y x by (subst div_ts.simps) (simp add: isZero_iff equals_iff)
    moreover have "\<bar>val x\<bar> div \<bar>val y\<bar> = 0"
      using vx ymin(2) by (intro div_pos_pos_trivial) (simp_all add: val_consts)
    ultimately show ?thesis by (simp add: tdiv_def of_val_0)
  next
    case pp
    then have "tdiv (val x) (val y) = val x div val y" by (simp add: tdiv_def)
    then show ?thesis using div_ts_pos [OF lg pp] by simp
  next
    case nn
    have n: "val (negate x) = - val x" "val (negate y) = - val y"
      using x nn(3) by (simp_all add: val_negate)
    have "div_ts lg x y = div_ts lg (negate x) (negate y)"
      using nn x y by (subst div_ts.simps)
        (simp add: isZero_iff equals_iff isNegative_iff)
    also have "\<dots> = Some (Inr (of_val ((- val x) div (- val y))))"
      using div_ts_pos [OF lg, of "negate x" "negate y"] nn n by simp
    also have "(- val x) div (- val y) = tdiv (val x) (val y)"
      using nn by (simp add: tdiv_def)
    finally show ?thesis .
  next
    case np
    have n: "val (negate x) = - val x" using x by (simp add: val_negate)
    have ym: "y \<noteq> MIN_VALUE" using np(2) by (auto simp add: val_consts)
    have q: "0 \<le> (- val x) div val y" "(- val x) div val y \<le> - val x"
      using np by (intro div_bounds_pos; simp)+
    have "div_ts lg x y = bind_result (div_ts lg (negate x) y) (\<lambda>q. Some (Inr (negate q)))"
      using np x y ym by (subst div_ts.simps)
        (simp add: isZero_iff equals_iff isNegative_iff)
    also have "div_ts lg (negate x) y = Some (Inr (of_val ((- val x) div val y)))"
      using div_ts_pos [OF lg, of "negate x" y] np n by simp
    also have "bind_result (Some (Inr (of_val ((- val x) div val y)))) (\<lambda>q. Some (Inr (negate q)))
        = Some (Inr (of_val (- ((- val x) div val y))))"
      using q vx by (simp add: negate_of_val_small)
    also have "- ((- val x) div val y) = tdiv (val x) (val y)"
      using np by (simp add: tdiv_def)
    finally show ?thesis .
  next
    case pn
    have n: "val (negate y) = - val y" using pn(3) by (simp add: val_negate)
    have xm: "x \<noteq> MIN_VALUE" by (rule x)
    have q: "0 \<le> val x div (- val y)" "val x div (- val y) \<le> val x"
      using pn by (intro div_bounds_pos; simp)+
    have "div_ts lg x y = bind_result (div_ts lg x (negate y)) (\<lambda>q. Some (Inr (negate q)))"
      using pn x y by (subst div_ts.simps)
        (simp add: isZero_iff equals_iff isNegative_iff)
    also have "div_ts lg x (negate y) = Some (Inr (of_val (val x div (- val y))))"
      using div_ts_pos [OF lg, of x "negate y"] pn n by simp
    also have "bind_result (Some (Inr (of_val (val x div (- val y))))) (\<lambda>q. Some (Inr (negate q)))
        = Some (Inr (of_val (- (val x div (- val y)))))"
      using q vx by (simp add: negate_of_val_small)
    also have "- (val x div (- val y)) = tdiv (val x) (val y)"
      using pn by (simp add: tdiv_def)
    finally show ?thesis .
  qed
qed

subsection \<open>The \<open>MIN_VALUE\<close> dividend\<close>

lemma word32_of_uint [simp]: "(word_of_int (uint (w :: int32)) :: int32) = w"
  by simp

lemma shiftLeft_1: "shiftLeft x 1 = of_val (2 * val x)"
proof -
  have n: "js_and 1 63 = 1" by code_simp
  have lo: "ToInt32 (js_shl (sint (low x)) 1) = word_of_int (2 * val x)"
  proof -
    have l: "low x = word_of_int (val x)"
      using word32_of_uint_mod [of "val x"] by (simp add: val_mod)
    have "ToInt32 (js_shl (sint (low x)) 1) = push_bit 1 (low x)"
      by (simp add: js_shl_def)
    also have "\<dots> = 2 * low x" by (simp add: push_bit_eq_mult)
    also have "\<dots> = 2 * word_of_int (val x)" by (simp only: l [symmetric])
    finally show ?thesis by simp
  qed
  have hi: "ToInt32 (js_or (js_shl (sint (high x)) 1) (js_ushr (sint (low x)) 31))
      = word_of_int (2 * val x div 4294967296)"
  proof -
    have "ToInt32 (js_or (js_shl (sint (high x)) 1) (js_ushr (sint (low x)) 31))
        = push_bit 1 (high x) OR drop_bit 31 (low x)"
      by (simp add: js_or_def js_shl_def js_ushr_def) (simp add: ToInt32_def)
    also have "\<dots> = push_bit 1 (high x) + drop_bit 31 (low x)"
    proof (rule disjunctive_add [symmetric])
      fix n
      show "\<not> bit (push_bit 1 (high x)) n \<or> \<not> bit (drop_bit 31 (low x)) n"
        by (cases n) (auto simp add: bit_push_bit_iff bit_drop_bit_eq bit_0 dest: bit_imp_le_length)
    qed
    also have "push_bit 1 (high x) = word_of_int (2 * sint (high x))"
      by (simp add: push_bit_eq_mult)
    also have "drop_bit 31 (low x) = word_of_int (uint (low x) div 2147483648)"
    proof -
      have "drop_bit 31 (low x) = low x div 2147483648" by (simp add: drop_bit_eq_div)
      moreover have "uint (low x div 2147483648) = uint (low x) div uint (2147483648 :: int32)"
        by (rule uint_div_distrib)
      moreover have "uint (2147483648 :: int32) = 2147483648" by simp
      ultimately have "uint (drop_bit 31 (low x)) = uint (low x) div 2147483648"
        by (simp only:)
      then show ?thesis by (metis word32_of_uint)
    qed
    also have "word_of_int (2 * sint (high x)) + word_of_int (uint (low x) div 2147483648)
        = (word_of_int (2 * sint (high x) + uint (low x) div 2147483648) :: int32)"
      by simp
    also have "2 * sint (high x) + uint (low x) div 2147483648 = 2 * val x div 4294967296"
    proof -
      have "2 * val x = 2 * uint (low x) + (2 * sint (high x)) * 4294967296"
        by (simp add: val_eq)
      then have "2 * val x div 4294967296
          = 2 * uint (low x) div 4294967296 + 2 * sint (high x)"
        by (simp only: div_mult_self1)
      moreover have "2 * uint (low x) div 4294967296 = uint (low x) div 2147483648"
        by simp
      ultimately show ?thesis by simp
    qed
    finally show ?thesis .
  qed
  show ?thesis
    by (simp add: shiftLeft_def n Let_def fromBits_def Timestamp_def lo hi of_val_def)
qed

lemma of_val_sub_wrap: "of_val (a - wrap64 p) = of_val (a - p)"
proof (rule of_val_cong)
  have "(a - wrap64 p) mod 18446744073709551616
      = (a - wrap64 p mod 18446744073709551616) mod 18446744073709551616"
    by (simp add: mod_diff_right_eq)
  also have "\<dots> = (a - p mod 18446744073709551616) mod 18446744073709551616"
    by (simp only: wrap64_mod)
  also have "\<dots> = (a - p) mod 18446744073709551616"
    by (simp add: mod_diff_right_eq)
  finally show "(a - wrap64 p) mod 18446744073709551616 = (a - p) mod 18446744073709551616" .
qed

lemma halfThis: "shiftRight MIN_VALUE 1 = of_val (- 4611686018427387904)"
  by code_simp

lemma MIN_special:
  "val ONE = 1" "val NEG_ONE = - 1" "\<not> isZero MIN_VALUE" "isNegative MIN_VALUE"
  by (simp_all add: val_consts isZero_iff isNegative_iff)

lemma div_ts_MIN:
  assumes lg: "lg_ok lg" and y: "\<not> isZero y"
  shows "\<exists>q. div_ts lg MIN_VALUE y = Some (Inr q)"
proof -
  have vy: "val y \<noteq> 0" using y by (simp add: isZero_iff)
  consider (one) "y = ONE \<or> y = NEG_ONE" | (min) "y \<noteq> ONE" "y \<noteq> NEG_ONE" "y = MIN_VALUE"
    | (gen) "y \<noteq> ONE" "y \<noteq> NEG_ONE" "y \<noteq> MIN_VALUE"
    by blast
  then show ?thesis
  proof cases
    case one
    then have "div_ts lg MIN_VALUE y = Some (Inr MIN_VALUE)"
      using y by (subst div_ts.simps) (simp add: equals_iff MIN_special)
    then show ?thesis by blast
  next
    case min
    then have "div_ts lg MIN_VALUE y = Some (Inr ONE)"
      using y by (subst div_ts.simps) (simp add: equals_iff MIN_special)
    then show ?thesis by blast
  next
    case gen
    define a where "a = \<bar>val y\<bar>"
    have a2: "2 \<le> a"
    proof -
      have "val y \<noteq> 1" "val y \<noteq> - 1"
        using gen(1,2) val_inj [of y ONE] val_inj [of y NEG_ONE] by (auto simp add: val_consts)
      then show ?thesis using vy by (simp add: a_def)
    qed
    define h where "h = 4611686018427387904 div a"
    define q' where "q' = tdiv (- 4611686018427387904) (val y)"
    have vh: "val (of_val (- 4611686018427387904)) = - 4611686018427387904"
      by (simp add: val_of_val wrap64_id)
    have hne: "of_val (- 4611686018427387904) \<noteq> MIN_VALUE"
      using vh by (auto simp add: val_consts)
    have d1: "div_ts lg (of_val (- 4611686018427387904)) y = Some (Inr (of_val q'))"
      using div_ts_nonMIN [OF lg y hne] by (simp add: vh q'_def)
    have hb: "0 \<le> h" "h \<le> 4611686018427387904"
      unfolding h_def using a2 by (intro div_bounds_pos; simp)+
    have q': "q' = - sgn (val y) * h"
      by (simp add: q'_def tdiv_def h_def a_def)
    have sg: "sgn (val y) = 1 \<or> sgn (val y) = - 1" using vy by (auto simp add: sgn_if)
    have qb: "- 4611686018427387904 \<le> q'" "q' \<le> 4611686018427387904"
      using sg hb unfolding q' by auto
    have vq: "val (of_val q') = q'" using qb by (simp add: val_of_val wrap64_id)
    have approx: "shiftLeft (of_val q') 1 = of_val (2 * q')"
      by (simp add: shiftLeft_1 vq)
    have prod: "val y * q' = - (a * h)"
    proof -
      have "val y * sgn (val y) = a" unfolding a_def by (rule abs_sgn [symmetric])
      then have "val y * (- sgn (val y) * h) = - (a * h)" by (simp add: mult.assoc [symmetric])
      then show ?thesis by (simp add: q')
    qed
    have ah: "a * h \<le> 4611686018427387904"
    proof -
      have "4611686018427387904 = a * h + 4611686018427387904 mod a"
        unfolding h_def by simp
      moreover have "0 \<le> 4611686018427387904 mod a" using a2 by simp
      ultimately show ?thesis by linarith
    qed
    have unfold: "div_ts lg MIN_VALUE y
        = bind_result (div_ts lg (of_val (- 4611686018427387904)) y) (\<lambda>q.
            let approx = shiftLeft q 1
            in if equals approx ZERO then
                 Some (Inr (if isNegative y then ONE else NEG_ONE))
               else
                 (let rem = subtract MIN_VALUE (multiply y approx)
                  in bind_result (div_ts lg rem y) (\<lambda>r. Some (Inr (add approx r)))))"
      using gen y by (subst div_ts.simps) (simp add: equals_iff MIN_special halfThis)
    show ?thesis
    proof (cases "equals (of_val (2 * q')) ZERO")
      case True
      then show ?thesis unfolding unfold d1 by (simp add: approx Let_def)
    next
      case False
      then have "q' \<noteq> 0" by (auto simp add: equals_iff of_val_0)
      then have "h \<noteq> 0" unfolding q' by simp
      with hb have h1: "1 \<le> h" by simp
      have "2 * 1 \<le> a * h" using a2 h1 by (intro mult_mono) simp_all
      then have ah1: "2 \<le> a * h" by simp
      define rem where "rem = subtract MIN_VALUE (multiply y (of_val (2 * q')))"
      have "rem = of_val (- 9223372036854775808 - val y * wrap64 (2 * q'))"
        by (simp add: rem_def subtract_of_val multiply_of_val val_of_val val_consts of_val_sub_wrap)
      also have "wrap64 (2 * q') = 2 * q'"
      proof -
        have "a * h = \<bar>q'\<bar> * a" unfolding q' using sg hb by (auto simp add: abs_mult)
        moreover have "\<bar>q'\<bar> * 2 \<le> \<bar>q'\<bar> * a" using a2 by (intro mult_left_mono) simp_all
        ultimately have "2 * \<bar>q'\<bar> \<le> 4611686018427387904" using ah by linarith
        then show ?thesis by (intro wrap64_id) linarith+
      qed
      also have "val y * (2 * q') = - (2 * (a * h))"
      proof -
        have "val y * (2 * q') = 2 * (val y * q')" by simp
        then show ?thesis by (simp only: prod)
      qed
      finally have r: "rem = of_val (2 * (a * h) - 9223372036854775808)" by simp
      have "val rem = 2 * (a * h) - 9223372036854775808"
        unfolding r using ah ah1 by (simp add: val_of_val wrap64_id)
      then have "rem \<noteq> MIN_VALUE" using ah1 by (auto simp add: val_consts)
      then have d2: "div_ts lg rem y = Some (Inr (of_val (tdiv (val rem) (val y))))"
        using div_ts_nonMIN [OF lg y] by simp
      show ?thesis
        unfolding unfold d1 using False
        by (simp add: approx Let_def rem_def [symmetric] d2)
    qed
  qed
qed

lemma div_ts_total:
  assumes "lg_ok lg" "\<not> isZero y"
  shows "\<exists>q. div_ts lg x y = Some (Inr q)"
proof (cases "x = MIN_VALUE")
  case True
  then show ?thesis using div_ts_MIN [OF assms] by simp
next
  case False
  then show ?thesis using div_ts_nonMIN [OF assms] by blast
qed

section \<open>Text\<close>

subsection \<open>The host functions \<open>Number.prototype.toString\<close> and \<open>parseInt\<close>\<close>

text \<open>
  Modelled from the language specification: \<open>timestamp.js\<close> calls the two built-in
  conversions between numbers and digit strings, which are not part of the repository.
  Strings are lists of 8-bit characters; digits beyond 9 are the lower-case letters.
\<close>

definition digit_char :: "nat \<Rightarrow> char" where
  "digit_char d = ''0123456789abcdefghijklmnopqrstuvwxyz'' ! d"

text \<open>The digits of \<open>n \<ge> 0\<close> in base \<open>r\<close>, most significant first.\<close>

function int_digits :: "int \<Rightarrow> int \<Rightarrow> string" where
  "int_digits r n =
    (if r < 2 \<or> n < r then [digit_char (nat n)]
     else int_digits r (n div r) @ [digit_char (nat (n mod r))])"
  by pat_completeness auto
termination
proof (relation "measure (\<lambda>(r, n). nat n)")
  show "wf (measure (\<lambda>(r :: int, n). nat n))" by simp
next
  fix r n :: int
  assume "\<not> (r < 2 \<or> n < r)"
  then have r: "2 \<le> r" "r \<le> n" by simp_all
  then have "n div r < n" by (intro int_div_less_self) simp_all
  moreover have "0 \<le> n div r" using r by (simp add: pos_imp_zdiv_nonneg_iff)
  ultimately show "((r, n div r), (r, n)) \<in> measure (\<lambda>(r, n). nat n)" by simp
qed

declare int_digits.simps [simp del]

text \<open>\<open>n.toString(radix)\<close> for an integral number \<open>n\<close> and \<open>2 \<le> radix \<le> 36\<close>.\<close>

definition number_toString :: "int \<Rightarrow> int \<Rightarrow> string" where
  "number_toString n radix =
    (if n < 0 then CHR ''-'' # int_digits radix (- n) else int_digits radix n)"

definition digit_value :: "char \<Rightarrow> nat option" where
  "digit_value c =
    (let k = of_char c :: nat
     in if 48 \<le> k \<and> k \<le> 57 then Some (k - 48)
        else if 97 \<le> k \<and> k \<le> 122 then Some (k - 87)
        else if 65 \<le> k \<and> k \<le> 90 then Some (k - 55)
        else None)"

definition is_radix_digit :: "int \<Rightarrow> char \<Rightarrow> bool" where
  "is_radix_digit R c = (case digit_value c of None \<Rightarrow> False | Some d \<Rightarrow> int d < R)"

definition is_whitespace :: "char \<Rightarrow> bool" where
  "is_whitespace c \<longleftrightarrow> (of_char c :: nat) \<in> {9, 10, 11, 12, 13, 32, 160}"

definition digits_value :: "int \<Rightarrow> string \<Rightarrow> int" where
  "digits_value R Z = foldl (\<lambda>acc c. acc * R + int (the (digit_value c))) 0 Z"

definition parseInt :: "string \<Rightarrow> int \<Rightarrow> number" where
  "parseInt string radix =
    (let S = dropWhile is_whitespace string;
         sign = (if S \<noteq> [] \<and> hd S = CHR ''-'' then - 1 else 1 :: int);
         S = (if S \<noteq> [] \<and> (hd S = CHR ''+'' \<or> hd S = CHR ''-'') then tl S else S);
         R = sint (ToInt32 radix);
         stripPrefix = (R = 0 \<or> R = 16)
     in if R \<noteq> 0 \<and> (R < 2 \<or> 36 < R) then NaN
        else
          (let R = (if R = 0 then 10 else R);
               hex = (stripPrefix \<and> (take 2 S = ''0x'' \<or> take 2 S = ''0X''));
               S = (if hex then drop 2 S else S);
               R = (if hex then 16 else R);
               Z = takeWhile (is_radix_digit R) S
           in if Z = [] then NaN
              else Fin (of_int sign * fl (of_int (digits_value R Z)))))"

subsection \<open>\<open>fromString\<close>\<close>

text \<open>The loop \<open>for (var i = 0; i < str.length; i += 8)\<close>. \<open>Math.pow(radix, size)\<close> is the
  exact power (at most \<open>36^8\<close>).\<close>

function fromString_loop :: "string \<Rightarrow> int \<Rightarrow> Timestamp \<Rightarrow> nat \<Rightarrow> Timestamp \<Rightarrow> Timestamp" where
  "fromString_loop str radix radixToPower i result =
    (if i < length str then
       (let size = min 8 (length str - i);
            v = parseInt (take size (drop i str)) radix
        in if size < 8 then
             (let power = fromNumber (Fin (of_int (radix ^ size)));
                  result = add (multiply result power) (fromNumber v)
              in fromString_loop str radix radixToPower (i + 8) result)
           else
             (let result = multiply result radixToPower;
                  result = add result (fromNumber v)
              in fromString_loop str radix radixToPower (i + 8) result))
     else result)"
  by pat_completeness auto
termination
  by (relation "measure (\<lambda>(str, radix, radixToPower, i, result). length str - i)") auto

declare fromString_loop.simps [simp del]

text \<open>\<open>opt_radix || 10\<close>: an absent radix (\<open>None\<close>) and the radix 0 are falsy and give 10.
  The radix, when given, is an integral number.\<close>

definition radix_or_10 :: "int option \<Rightarrow> int" where
  "radix_or_10 opt_radix = (case opt_radix of None \<Rightarrow> 10 | Some r \<Rightarrow> if r = 0 then 10 else r)"

function fromString :: "string \<Rightarrow> int option \<Rightarrow> error + Timestamp" where
  "fromString str opt_radix =
    (if length str = 0 then Inl EmptyString
     else if radix_or_10 opt_radix < 2 \<or> 36 < radix_or_10 opt_radix then Inl RadixOutOfRange
     else if hd str = CHR ''-'' then
       (case fromString (drop 1 str) (Some (radix_or_10 opt_radix)) of
          Inl e \<Rightarrow> Inl e
        | Inr t \<Rightarrow> Inr (negate t))
     else if CHR ''-'' \<in> set str then Inl InteriorMinus
     else
       (let radix = radix_or_10 opt_radix;
            radixToPower = fromNumber (Fin (of_int (radix ^ 8)))
        in Inr (fromString_loop str radix radixToPower 0 ZERO)))"
  by pat_completeness auto
termination
  by (relation "measure (\<lambda>(str, opt_radix). length str)") auto

declare fromString.simps [simp del]

subsection \<open>\<open>toString\<close>\<close>

definition pad6 :: "string \<Rightarrow> string" where
  "pad6 digits = replicate (6 - length digits) CHR ''0'' @ digits"

partial_function (option) toString_loop ::
  "(rat \<Rightarrow> int) \<Rightarrow> int \<Rightarrow> Timestamp \<Rightarrow> Timestamp \<Rightarrow> string \<Rightarrow> (error + string) option" where
  "toString_loop lg radix radixToPower rem result =
    bind_result (div_ts lg rem radixToPower) (\<lambda>remDiv.
      let intval = toInt (subtract rem (multiply remDiv radixToPower));
          digits = number_toString intval radix;
          rem = remDiv
      in if isZero rem then Some (Inr (digits @ result))
         else
           (let digits = pad6 digits;
                result = digits @ result
            in toString_loop lg radix radixToPower rem result))"

partial_function (option) toString ::
  "(rat \<Rightarrow> int) \<Rightarrow> Timestamp \<Rightarrow> int option \<Rightarrow> (error + string) option" where
  "toString lg this opt_radix =
    (if radix_or_10 opt_radix < 2 \<or> 36 < radix_or_10 opt_radix then Some (Inl RadixOutOfRange)
     else if isZero this then Some (Inr ''0'')
     else if isNegative this then
       (if equals this MIN_VALUE then
          (let radix = radix_or_10 opt_radix;
               radixTimestamp = fromNumber (Fin (of_int radix))
           in bind_result (div_ts lg this radixTimestamp) (\<lambda>dv.
                let rem = subtract (multiply dv radixTimestamp) this
                in bind_result (toString lg dv (Some radix)) (\<lambda>s.
                     Some (Inr (s @ number_toString (toInt rem) radix)))))
        else
          bind_result (toString lg (negate this) (Some (radix_or_10 opt_radix))) (\<lambda>s.
            Some (Inr (CHR ''-'' # s))))
     else
       (let radix = radix_or_10 opt_radix;
            radixToPower = fromNumber (Fin (of_int (radix ^ 6)))
        in toString_loop lg radix radixToPower this []))"

declare toString_loop.simps [code] toString.simps [code]

subsection \<open>The failure condition of \<open>fromString\<close> as the specification words it\<close>


section \<open>Claims on the arithmetic\<close>

lemma lg_ok_lg_exact: "lg_ok lg_exact"
  unfolding lg_ok_def
proof (intro allI impI)
  fix n :: int
  assume n: "1 \<le> n"
  define m where "m = n - 1"
  have m: "0 \<le> m" using n by (simp add: m_def)
  have lgn: "lg_exact (of_int n) = bitlen m"
    by (simp add: lg_exact_def m_def)
  have b0: "0 \<le> bitlen m" by (rule bitlen_nonneg)
  have up: "m < 2 ^ nat (bitlen m)"
  proof (cases "m = 0")
    case True
    then show ?thesis by simp
  next
    case False
    then have "0 < m" using m by simp
    then show ?thesis using bitlen_bounds [of m] by simp
  qed
  then have "n \<le> 2 ^ nat (bitlen m)" by (simp add: m_def)
  then have "(of_int n :: rat) \<le> of_int (2 ^ nat (bitlen m))" by (simp only: of_int_le_iff)
  then have le: "(of_int n :: rat) \<le> 2 ^ nat (bitlen m)" by simp
  have p: "pow2 (bitlen m) = 2 ^ nat (bitlen m)"
    using pow2_nat [of "nat (bitlen m)"] b0 by simp
  have lo: "pow2 (bitlen m) < 4 * of_int n"
  proof (cases "m = 0")
    case True
    then have "n = 1" by (simp add: m_def)
    then show ?thesis using True by simp
  next
    case False
    then have pos: "0 < m" using m by simp
    then have "2 ^ nat (bitlen m - 1) \<le> m" using bitlen_bounds [of m] by simp
    then have "(of_int (2 ^ nat (bitlen m - 1)) :: rat) \<le> of_int m" by (simp only: of_int_le_iff)
    then have h: "(2 ^ nat (bitlen m - 1) :: rat) \<le> of_int m" by simp
    have "bitlen m \<noteq> 0" using pos by (simp add: bitlen_eq_zero_iff)
    then have "0 < bitlen m" using b0 by simp
    then have "nat (bitlen m) = Suc (nat (bitlen m - 1))" by simp
    then have "(2 ^ nat (bitlen m) :: rat) = 2 * 2 ^ nat (bitlen m - 1)" by simp
    then have "(2 ^ nat (bitlen m) :: rat) \<le> 2 * of_int m" using h by simp
    also have "\<dots> < 4 * of_int n" using n by (simp add: m_def)
    finally show ?thesis using p by simp
  qed
  have pp: "0 < (2 :: rat) ^ nat (bitlen m)" by simp
  have "(of_int n :: rat) < 2 * 2 ^ nat (bitlen m)" using le pp by linarith
  then have "(of_int n :: rat) < pow2 (bitlen m + 1)"
    by (simp only: pow2_Suc p)
  then show "of_int n < pow2 (lg_exact (of_int n) + 1) \<and>
      pow2 (lg_exact (of_int n)) < 4 * of_int n"
    using lo by (simp only: lgn)
qed

text \<open>The wrapped product added to the wrapped difference from it gives the minuend
  back, whatever the factors.\<close>

lemma add_multiply_subtract: "add (multiply q y) (subtract x (multiply q y)) = x"
proof -
  define a where "a = val (multiply q y)"
  have "add (multiply q y) (subtract x (multiply q y)) = of_val (a + val (of_val (val x - a)))"
    unfolding a_def by (simp only: add_of_val subtract_of_val)
  also have "\<dots> = of_val (wrap64 (val x - a) + a)"
    by (simp only: val_of_val add.commute)
  also have "\<dots> = of_val (val x - a + a)"
    by (rule of_val_add_wrap)
  also have "\<dots> = x"
    by (simp add: of_val_val)
  finally show ?thesis .
qed

lemma isZero_examples:
  "\<not> isZero (fromInt 7)" "isZero ZERO" "\<not> isZero NEG_ONE"
  by code_simp+

text \<open>
  Claim C3. \<open>add\<close> is 64-bit two's-complement addition with wrap-around: the integer
  denoted by \<open>x.add(y)\<close> is the sum of the integers denoted by \<open>x\<close> and \<open>y\<close>, reduced
  modulo \<open>2^64\<close> into the signed range (\<open>wrap64\<close>); in particular
  \<open>MAX_VALUE.add(ONE)\<close> equals \<open>MIN_VALUE\<close>.
\<close>

theorem add_wraps_64:
  "val (add x y) = wrap64 (val x + val y) \<and> equals (add MAX_VALUE ONE) MIN_VALUE"
proof
  show "val (add x y) = wrap64 (val x + val y)"
    by (simp add: add_of_val val_of_val)
  have "add MAX_VALUE ONE = of_val (val MAX_VALUE + val ONE)"
    by (rule add_of_val)
  also have "\<dots> = of_val (val MIN_VALUE)"
    by (rule of_val_cong) (simp add: val_consts)
  finally show "equals (add MAX_VALUE ONE) MIN_VALUE"
    by (simp add: equals_iff of_val_val)
qed

text \<open>
  Claim C5. When one operand of \<open>multiply\<close> is \<open>MIN_VALUE\<close>, the result is \<open>MIN_VALUE\<close> if
  the integer denoted by the other operand is odd and \<open>ZERO\<close> if it is even; and the test
  \<open>isOdd\<close> that the code uses to choose between the two is true exactly of the operands
  that denote an odd integer. The claim asks this for every nonzero other operand; it
  holds for the zero operand as well (zero is even, the product is \<open>ZERO\<close>), so the
  theorem needs no side condition.
\<close>

theorem multiply_MIN_VALUE:
  "isOdd x = odd (val x) \<and>
   multiply MIN_VALUE x = (if odd (val x) then MIN_VALUE else ZERO) \<and>
   multiply x MIN_VALUE = (if odd (val x) then MIN_VALUE else ZERO)"
proof (intro conjI)
  show "isOdd x = odd (val x)"
    by (rule isOdd_iff)
  have z: "\<not> isZero MIN_VALUE" "\<not> isOdd MIN_VALUE" "\<not> isOdd ZERO"
    by code_simp+
  have odd_zero: "isZero x \<Longrightarrow> \<not> isOdd x"
  proof -
    assume "isZero x"
    then have "x = ZERO"
      using val_inj [of x ZERO] by (simp add: isZero_iff val_consts)
    then show "\<not> isOdd x" using z(3) by simp
  qed
  have "multiply MIN_VALUE x = (if isOdd x then MIN_VALUE else ZERO)"
    using z odd_zero by (subst multiply.simps) (auto simp add: equals_iff)
  then show "multiply MIN_VALUE x = (if odd (val x) then MIN_VALUE else ZERO)"
    by (simp only: isOdd_iff)
  have "multiply x MIN_VALUE = (if isOdd x then MIN_VALUE else ZERO)"
    using z odd_zero by (subst multiply.simps) (auto simp add: equals_iff)
  then show "multiply x MIN_VALUE = (if odd (val x) then MIN_VALUE else ZERO)"
    by (simp only: isOdd_iff)
qed

text \<open>
  Claim C8. \<open>fromNumber\<close> is a total function (it has no error result): it returns \<open>ZERO\<close>
  for NaN and for both infinities, \<open>MIN_VALUE\<close> for every finite \<open>value \<le> -2^63\<close>, and
  \<open>MAX_VALUE\<close> for every finite value with \<open>value + 1 \<ge> 2^63\<close>, whether the sum is taken
  exactly or as the rounded sum \<open>fadd value 1\<close> that the code computes (for the latter the
  first test must have failed, as in the code).
\<close>

theorem fromNumber_total_clamps:
  "fromNumber NaN = ZERO \<and> fromNumber PosInf = ZERO \<and> fromNumber NegInf = ZERO \<and>
   (v \<le> - (2 ^ 63) \<longrightarrow> fromNumber (Fin v) = MIN_VALUE) \<and>
   (2 ^ 63 \<le> v + 1 \<longrightarrow> fromNumber (Fin v) = MAX_VALUE) \<and>
   (- (2 ^ 63) < v \<and> 2 ^ 63 \<le> fadd v 1 \<longrightarrow> fromNumber (Fin v) = MAX_VALUE)"
proof (intro conjI impI)
  show "fromNumber NaN = ZERO" "fromNumber PosInf = ZERO" "fromNumber NegInf = ZERO"
    by (simp_all add: fromNumber.simps)
  show "fromNumber (Fin v) = MIN_VALUE" if "v \<le> - (2 ^ 63)"
    using that by (intro fromNumber_clamp_min) simp
  show "fromNumber (Fin v) = MAX_VALUE" if "2 ^ 63 \<le> v + 1"
    using that by (intro fromNumber_clamp_max) simp
  show "fromNumber (Fin v) = MAX_VALUE" if "- (2 ^ 63) < v \<and> 2 ^ 63 \<le> fadd v 1"
    using that by (simp add: fromNumber.simps dbl_consts)
qed

theorem fromNumber_total_clamps_witness:
  "fromNumber (Fin (- (2 ^ 63))) = MIN_VALUE \<and> fromNumber (Fin (2 ^ 63 - 1)) = MAX_VALUE \<and>
   fromNumber (Fin (2 ^ 63)) = MAX_VALUE"
proof -
  have a: "(- (2 ^ 63) :: rat) \<le> - (2 ^ 63)" by simp
  have b: "(2 ^ 63 :: rat) \<le> (2 ^ 63 - 1) + 1" by simp
  have c: "- (2 ^ 63) < (2 ^ 63 :: rat) \<and> 2 ^ 63 \<le> fadd (2 ^ 63) 1" by code_simp
  show ?thesis
    using a b c fromNumber_total_clamps [of "- (2 ^ 63)"] fromNumber_total_clamps [of "2 ^ 63 - 1"]
      fromNumber_total_clamps [of "2 ^ 63"]
    by blast
qed

text \<open>
  Claim C10. \<open>getNumBitsAbs\<close> of the zero value is 1: with both words zero the scan from
  bit 31 down finds no set bit, leaves \<open>bit = 0\<close>, and the result is \<open>bit + 1\<close>.
\<close>

theorem getNumBitsAbs_ZERO: "getNumBitsAbs ZERO = 1"
  by code_simp

text \<open>
  Claim C9. \<open>fromNumber\<close> truncates toward zero: for every finite double \<open>v\<close> (a rational
  that rounding leaves unchanged), integral or not, \<open>fromNumber(v)\<close> is
  \<open>fromNumber(trunc(v))\<close>. The double nearest to 2.9 gives \<open>fromInt(2)\<close> and the double
  nearest to -2.9 gives \<open>fromInt(-2)\<close>.
\<close>

theorem fromNumber_truncates:
  "(fl v = v \<longrightarrow> fromNumber (Fin v) = fromNumber (Fin (of_int (trunc v)))) \<and>
   fromNumber (Fin (fl (29 / 10))) = fromInt 2 \<and>
   fromNumber (Fin (fl (- 29 / 10))) = fromInt (- 2)"
proof (intro conjI impI)
  show "fromNumber (Fin v) = fromNumber (Fin (of_int (trunc v)))" if "fl v = v"
    using that by (rule fromNumber_trunc)
  show "fromNumber (Fin (fl (29 / 10))) = fromInt 2"
    by code_simp
  show "fromNumber (Fin (fl (- 29 / 10))) = fromInt (- 2)"
    by code_simp
qed

theorem fromNumber_truncates_witness:
  "fromNumber (Fin (fl (29 / 10))) = fromNumber (Fin (of_int (trunc (fl (29 / 10))))) \<and>
   trunc (fl (29 / 10)) = 2 \<and> fl (29 / 10) \<noteq> 2"
proof -
  have a: "fl (fl (29 / 10)) = fl (29 / 10)" by (rule fl_idem)
  have b: "trunc (fl (29 / 10)) = 2 \<and> fl (29 / 10) \<noteq> 2" by code_simp
  show ?thesis
    using a b fromNumber_truncates [of "fl (29 / 10)"] by blast
qed

text \<open>
  Claim C4. \<open>div\<close> returns for every dividend and every nonzero divisor: the model of
  \<open>div\<close> is a partial function whose value \<open>None\<close> stands for a call that does not
  return, and it is never \<open>None\<close>. This covers the approximation loop and the recursion on
  a \<open>MIN_VALUE\<close> dividend. It is proved for every \<open>lg\<close> (the rounded-up binary logarithm
  that the loop takes from \<open>Math.log\<close>) that is within the bounds \<open>lg_ok\<close>.
\<close>

theorem div_terminates:
  assumes "lg_ok lg" and "\<not> isZero y"
  shows "\<exists>q. div_ts lg x y = Some (Inr q)"
  using assms by (rule div_ts_total)

theorem div_terminates_witness:
  "(\<exists>q. div_ts lg_exact (fromInt 100) (fromInt 7) = Some (Inr q)) \<and>
   (\<exists>q. div_ts lg_exact MIN_VALUE (fromInt 7) = Some (Inr q))"
  using div_terminates [OF lg_ok_lg_exact isZero_examples(1), of "fromInt 100"]
    div_terminates [OF lg_ok_lg_exact isZero_examples(1), of MIN_VALUE]
  by (rule conjI)

text \<open>
  Claim C6. \<open>div\<close> and \<open>modulo\<close> throw the division-by-zero error when the divisor is the
  zero value, and only then: for every other divisor and every dividend, \<open>MIN_VALUE\<close>
  included, both return a value (for \<open>lg\<close> within the bounds \<open>lg_ok\<close>).
\<close>

theorem div_modulo_error_iff:
  assumes "lg_ok lg"
  shows "(isZero y \<longrightarrow>
            div_ts lg x y = Some (Inl DivisionByZero) \<and>
            modulo_ts lg x y = Some (Inl DivisionByZero)) \<and>
         (\<not> isZero y \<longrightarrow>
            (\<exists>q. div_ts lg x y = Some (Inr q)) \<and> (\<exists>r. modulo_ts lg x y = Some (Inr r)))"
proof (intro conjI impI)
  assume z: "isZero y"
  show "div_ts lg x y = Some (Inl DivisionByZero)"
    using z by (subst div_ts.simps) simp
  then show "modulo_ts lg x y = Some (Inl DivisionByZero)"
    by (simp add: modulo_ts_def)
next
  assume nz: "\<not> isZero y"
  from div_ts_total [OF assms nz] obtain q where q: "div_ts lg x y = Some (Inr q)" ..
  show "\<exists>q. div_ts lg x y = Some (Inr q)" using q by blast
  show "\<exists>r. modulo_ts lg x y = Some (Inr r)" using q by (simp add: modulo_ts_def)
qed

theorem div_modulo_error_iff_witness:
  "div_ts lg_exact MIN_VALUE ZERO = Some (Inl DivisionByZero) \<and>
   modulo_ts lg_exact MIN_VALUE ZERO = Some (Inl DivisionByZero) \<and>
   (\<exists>q. div_ts lg_exact MIN_VALUE NEG_ONE = Some (Inr q)) \<and>
   (\<exists>r. modulo_ts lg_exact MIN_VALUE NEG_ONE = Some (Inr r))"
  using div_modulo_error_iff [OF lg_ok_lg_exact, of ZERO MIN_VALUE]
    div_modulo_error_iff [OF lg_ok_lg_exact, of NEG_ONE MIN_VALUE] isZero_examples
  by blast

text \<open>
  Claim C1. The division identity: for every \<open>x\<close> and every nonzero \<open>y\<close>, \<open>x.div(y)\<close> and
  \<open>x.modulo(y)\<close> return values \<open>q\<close> and \<open>r\<close> with \<open>q.multiply(y).add(r).equals(x)\<close>. It
  holds for the \<open>MIN_VALUE\<close> dividends and divisors too, so the theorem does not exclude
  them (for \<open>lg\<close> within the bounds \<open>lg_ok\<close>). The quotient is not arbitrary: for every
  dividend other than \<open>MIN_VALUE\<close> it denotes the quotient of the two integers truncated
  towards zero.
\<close>

theorem div_modulo_identity:
  assumes "lg_ok lg" and "\<not> isZero y"
  shows "\<exists>q r. div_ts lg x y = Some (Inr q) \<and> modulo_ts lg x y = Some (Inr r) \<and>
           equals (add (multiply q y) r) x \<and>
           (x \<noteq> MIN_VALUE \<longrightarrow> q = of_val (tdiv (val x) (val y)))"
proof -
  from div_ts_total [OF assms] obtain q where q: "div_ts lg x y = Some (Inr q)" ..
  have r: "modulo_ts lg x y = Some (Inr (subtract x (multiply q y)))"
    using q by (simp add: modulo_ts_def)
  have e: "equals (add (multiply q y) (subtract x (multiply q y))) x"
    by (simp only: add_multiply_subtract equals_iff)
  have t: "x \<noteq> MIN_VALUE \<longrightarrow> q = of_val (tdiv (val x) (val y))"
    using div_ts_nonMIN [OF assms, of x] q by simp
  from q r e t show ?thesis by blast
qed

theorem div_modulo_identity_witness:
  "div_ts lg_exact (fromInt 100) (fromInt 7) = Some (Inr (fromInt 14)) \<and>
   modulo_ts lg_exact (fromInt 100) (fromInt 7) = Some (Inr (fromInt 2)) \<and>
   equals (add (multiply (fromInt 14) (fromInt 7)) (fromInt 2)) (fromInt 100)"
proof -
  have n: "fromInt 100 \<noteq> MIN_VALUE" by code_simp
  have v: "of_val (tdiv (val (fromInt 100)) (val (fromInt 7))) = fromInt 14" by code_simp
  from div_modulo_identity [OF lg_ok_lg_exact isZero_examples(1), of "fromInt 100"]
  obtain q r where qr: "div_ts lg_exact (fromInt 100) (fromInt 7) = Some (Inr q)"
      "modulo_ts lg_exact (fromInt 100) (fromInt 7) = Some (Inr r)"
      "equals (add (multiply q (fromInt 7)) r) (fromInt 100)"
      "fromInt 100 \<noteq> MIN_VALUE \<longrightarrow> q = of_val (tdiv (val (fromInt 100)) (val (fromInt 7)))"
    by blast
  have q: "q = fromInt 14" using qr(4) n v by simp
  have "modulo_ts lg_exact (fromInt 100) (fromInt 7) =
      Some (Inr (subtract (fromInt 100) (multiply (fromInt 14) (fromInt 7))))"
    using qr(1) q by (simp add: modulo_ts_def)
  moreover have "subtract (fromInt 100) (multiply (fromInt 14) (fromInt 7)) = fromInt 2"
    by code_simp
  ultimately have r: "r = fromInt 2" using qr(2) by simp
  show ?thesis using qr(1,2,3) q r by simp
qed

section \<open>Claims on the text conversions\<close>





text \<open>
  Claim C2. Printing and parsing back does not reproduce every value in radix 36. For
  \<open>x = 2^31\<close> the single chunk of \<open>toString\<close> is \<open>x\<close> itself (it is below \<open>36^6\<close>), \<open>toInt\<close>
  reads its low word as the signed \<open>-2^31\<close>, so the text printed is \<open>-zik0zk\<close>, which
  \<open>fromString\<close> parses as \<open>-2^31\<close>, a value that \<open>equals\<close> tells apart from \<open>x\<close>.
\<close>

theorem toString_fromString_radix_36:
  "val (fromNumber (Fin 2147483648)) = 2147483648 \<and>
   toString lg (fromNumber (Fin 2147483648)) (Some 36) = Some (Inr ''-zik0zk'') \<and>
   fromString ''-zik0zk'' (Some 36) = Inr (fromInt (- 2147483648)) \<and>
   \<not> equals (fromInt (- 2147483648)) (fromNumber (Fin 2147483648))"
  by code_simp

end
